theory Spec2Isabelle
  imports Complex_Main "HOL-Library.Extended_Nat"
begin

section \<open>Data model\<close>

text \<open>
  The enumerations of \<^verbatim>\<open>flashpointModel.py\<close>. The fire grid is a numpy array of the
  integer values of \<^verbatim>\<open>FireState\<close>; every write stores \<^verbatim>\<open>state.value\<close> of a member,
  so a cell of the grid is modelled by the member itself.
\<close>

datatype CellType = NORMAL | EXIT | HOTSPOT

datatype FireState = CLEAR | SMOKE | FIRE

record Wall =
  health :: int
  max_health :: int

text \<open>
  Objects that are shared and mutated through references (POIs, firefighters) live in
  stores of the model, from an address to the object; a reference is the address.
  \<^verbatim>\<open>carried_by\<close> of a POI refers to a firefighter.
\<close>

record POI =
  poi_id :: nat
  poi_x :: int
  poi_y :: int
  is_false_alarm :: bool
  is_revealed :: bool
  is_rescued :: bool
  carried_by :: "nat option"

text \<open>
  A firefighter. \<^verbatim>\<open>carrying_poi\<close> refers to a POI object. \<open>ff_pos\<close> is the attribute
  \<^verbatim>\<open>pos\<close> that the grid of the agent library maintains; the cell contents of that grid
  are the agents whose \<open>ff_pos\<close> is the cell. The attributes \<^verbatim>\<open>target_poi\<close> and
  \<^verbatim>\<open>target_exit\<close> are never read or written after construction and are left out.
\<close>

record Firefighter =
  ff_x :: int
  ff_y :: int
  ff_pos :: "int \<times> int"
  action_points :: int
  max_action_points :: int
  carrying_poi :: "nat option"
  role :: string

type_synonym pos = "int \<times> int"

type_synonym wall_key = "int \<times> int \<times> int \<times> int"

text \<open>
  The simulation. The two numpy arrays are read and written at \<^verbatim>\<open>[y, x]\<close> only under
  a bounds check or inside loops over \<^verbatim>\<open>range(height)\<close> and \<^verbatim>\<open>range(width)\<close>; they are
  total functions of the row \<open>y\<close> and the column \<open>x\<close> here. \<open>walls\<close> is the dictionary
  from wall keys to wall objects. \<open>pois\<close> is the list \<^verbatim>\<open>self.pois\<close> and \<open>agents\<close> the
  sequence \<^verbatim>\<open>self.schedule.agents\<close>, both of references; \<open>poi_obj\<close> and \<open>ff_obj\<close> are
  the object stores. The data collector and the step counter of the scheduler are
  write-only for the simulation and are left out.
\<close>

record Model =
  width :: int
  height :: int
  wall_health :: int
  rescued_pois :: int
  explosion_count :: int
  fire_grid :: "int \<Rightarrow> int \<Rightarrow> FireState"
  cell_types :: "int \<Rightarrow> int \<Rightarrow> CellType"
  walls :: "wall_key \<rightharpoonup> Wall"
  pois :: "nat list"
  poi_obj :: "nat \<Rightarrow> POI"
  agents :: "nat list"
  ff_obj :: "nat \<Rightarrow> Firefighter"

section \<open>Walls\<close>

definition new_Wall :: "int \<Rightarrow> Wall" where
  "new_Wall h = \<lparr>health = h, max_health = h\<rparr>"

definition take_damage :: "Wall \<Rightarrow> int \<Rightarrow> bool \<times> Wall" where
  "take_damage w damage =
     (let w' = w\<lparr>health := max 0 (health w - damage)\<rparr> in (health w' = 0, w'))"

definition is_destroyed :: "Wall \<Rightarrow> bool" where
  "is_destroyed w \<longleftrightarrow> health w \<le> 0"

definition get_wall_key :: "int \<Rightarrow> int \<Rightarrow> int \<Rightarrow> int \<Rightarrow> wall_key" where
  "get_wall_key x1 y1 x2 y2 =
     (if x1 = x2 then (min x1 x2, min y1 y2, max x1 x2, max y1 y2)
      else (min x1 x2, min y1 y2, max x1 x2, max y1 y2))"

definition has_wall_between :: "Model \<Rightarrow> int \<Rightarrow> int \<Rightarrow> int \<Rightarrow> int \<Rightarrow> bool" where
  "has_wall_between m x1 y1 x2 y2 =
     (case walls m (get_wall_key x1 y1 x2 y2) of
        None \<Rightarrow> False
      | Some wall \<Rightarrow> \<not> is_destroyed wall)"

definition can_move_between :: "Model \<Rightarrow> int \<Rightarrow> int \<Rightarrow> int \<Rightarrow> int \<Rightarrow> bool" where
  "can_move_between m x1 y1 x2 y2 =
     (if \<not> (0 \<le> x2 \<and> x2 < width m \<and> 0 \<le> y2 \<and> y2 < height m) then False
      else if \<bar>x1 - x2\<bar> + \<bar>y1 - y2\<bar> \<noteq> 1 then False
      else \<not> has_wall_between m x1 y1 x2 y2)"

section \<open>Breadth-first search\<close>

definition directions :: "(int \<times> int) list" where
  "directions = [(0, 1), (0, -1), (1, 0), (-1, 0)]"

text \<open>
  The \<^verbatim>\<open>for dx, dy in ...\<close> loop of \<^verbatim>\<open>find_path\<close> for one dequeued node: \<open>Inl\<close> is the
  \<^verbatim>\<open>return new_path\<close> inside the loop, \<open>Inr\<close> the queue and the visited set after it.
\<close>

fun expand :: "Model \<Rightarrow> pos \<Rightarrow> pos \<Rightarrow> pos list \<Rightarrow> (int \<times> int) list \<Rightarrow>
    (pos \<times> pos list) list \<Rightarrow> pos set \<Rightarrow> pos list + ((pos \<times> pos list) list \<times> pos set)" where
  "expand m goal (x, y) path [] queue visited = Inr (queue, visited)"
| "expand m goal (x, y) path ((dx, dy) # ds) queue visited =
     (let nx = x + dx; ny = y + dy in
      if (nx, ny) \<notin> visited \<and> can_move_between m x y nx ny then
        (let new_path = path @ [(nx, ny)] in
         if (nx, ny) = goal then Inl new_path
         else expand m goal (x, y) path ds (queue @ [((nx, ny), new_path)])
                (insert (nx, ny) visited))
      else expand m goal (x, y) path ds queue visited)"

definition in_bounds :: "Model \<Rightarrow> pos set" where
  "in_bounds m = {0..<width m} \<times> {0..<height m}"

lemma finite_in_bounds: "finite (in_bounds m)"
  by (simp add: in_bounds_def)

lemma can_move_in_bounds: "can_move_between m x y nx ny \<Longrightarrow> (nx, ny) \<in> in_bounds m"
  by (auto simp: can_move_between_def in_bounds_def split: if_splits)

lemma expand_result:
  "expand m goal p path ds queue visited = Inr (queue', visited') \<Longrightarrow>
   \<exists>ws. queue' = queue @ map (\<lambda>w. (w, path @ [w])) ws \<and> visited' = visited \<union> set ws \<and>
        set ws \<subseteq> in_bounds m - visited \<and> distinct ws"
proof (induction m goal p path ds queue visited rule: expand.induct)
  case (1 m goal x y path queue visited)
  then show ?case by simp
next
  case (2 m goal x y path dx dy ds queue visited)
  let ?n = "(x + dx, y + dy)"
  show ?case
  proof (cases "?n \<notin> visited \<and> can_move_between m x y (x + dx) (y + dy)")
    case True
    with "2.prems" have ne: "?n \<noteq> goal" and
      r: "expand m goal (x, y) path ds (queue @ [(?n, path @ [?n])]) (insert ?n visited)
          = Inr (queue', visited')"
      by (auto simp: Let_def split: if_splits)
    from "2.IH"(1) [OF refl refl True refl ne r] obtain ws where
      ws: "queue' = (queue @ [(?n, path @ [?n])]) @ map (\<lambda>w. (w, path @ [w])) ws"
        "visited' = insert ?n visited \<union> set ws"
        "set ws \<subseteq> in_bounds m - insert ?n visited" "distinct ws"
      by blast
    from True have "?n \<in> in_bounds m" by (blast intro: can_move_in_bounds)
    with ws True show ?thesis
      by (intro exI [of _ "?n # ws"]) auto
  next
    case False
    with "2.prems" have
      "expand m goal (x, y) path ds queue visited = Inr (queue', visited')"
      by (auto simp: Let_def split: if_splits)
    from "2.IH"(2) [OF refl refl False this] show ?thesis .
  qed
qed

function bfs_loop :: "Model \<Rightarrow> pos \<Rightarrow> (pos \<times> pos list) list \<Rightarrow> pos set \<Rightarrow> pos list" where
  "bfs_loop m goal [] visited = []"
| "bfs_loop m goal ((p, path) # queue) visited =
     (case expand m goal p path directions queue visited of
        Inl found \<Rightarrow> found
      | Inr (queue', visited') \<Rightarrow> bfs_loop m goal queue' visited')"
  by pat_completeness auto
termination
proof (relation "measures [\<lambda>(m, goal, queue, visited). card (in_bounds m - visited),
                           \<lambda>(m, goal, queue, visited). length queue]", goal_cases)
  case 1
  show ?case by simp
next
  case (2 m goal p path queue visited r queue' visited')
  then have "expand m goal p path directions queue visited = Inr (queue', visited')"
    by simp
  from expand_result [OF this] obtain ws where
    ws: "queue' = queue @ map (\<lambda>w. (w, path @ [w])) ws" "visited' = visited \<union> set ws"
      "set ws \<subseteq> in_bounds m - visited" "distinct ws"
    by blast
  show ?case
  proof (cases ws)
    case Nil
    with ws show ?thesis by simp
  next
    case (Cons w ws')
    with ws have "in_bounds m - visited' \<subset> in_bounds m - visited"
      by auto
    then have "card (in_bounds m - visited') < card (in_bounds m - visited)"
      by (intro psubset_card_mono) (simp_all add: finite_in_bounds)
    then show ?thesis by simp
  qed
qed

definition find_path :: "Model \<Rightarrow> pos \<Rightarrow> pos \<Rightarrow> pos list" where
  "find_path m start goal =
     (if start = goal then [start]
      else bfs_loop m goal [(start, [start])] {start})"


section \<open>Board queries\<close>

text \<open>\<^verbatim>\<open>range(n)\<close> for an integer \<open>n\<close>: empty when \<open>n \<le> 0\<close>.\<close>

definition py_range :: "int \<Rightarrow> int list" where
  "py_range n = [0..n - 1]"

text \<open>
  \<^verbatim>\<open>min(xs, key=f)\<close> on a list known to be non-empty (head \<open>x\<close>, tail \<open>xs\<close>): the first
  element whose key is minimal.
\<close>

definition py_min_key :: "('a \<Rightarrow> int) \<Rightarrow> 'a \<Rightarrow> 'a list \<Rightarrow> 'a" where
  "py_min_key f x xs = foldl (\<lambda>best y. if f y < f best then y else best) x xs"

definition get_fire_state :: "Model \<Rightarrow> int \<Rightarrow> int \<Rightarrow> FireState" where
  "get_fire_state m x y =
     (if 0 \<le> x \<and> x < width m \<and> 0 \<le> y \<and> y < height m then fire_grid m y x else CLEAR)"

definition set_fire_state :: "Model \<Rightarrow> int \<Rightarrow> int \<Rightarrow> FireState \<Rightarrow> Model" where
  "set_fire_state m x y state =
     (if 0 \<le> x \<and> x < width m \<and> 0 \<le> y \<and> y < height m
      then m\<lparr>fire_grid := (fire_grid m)(y := (fire_grid m y)(x := state))\<rparr>
      else m)"

definition is_exit :: "Model \<Rightarrow> int \<Rightarrow> int \<Rightarrow> bool" where
  "is_exit m x y =
     (if 0 \<le> x \<and> x < width m \<and> 0 \<le> y \<and> y < height m then cell_types m y x = EXIT
      else False)"

text \<open>The cells of the board in the order of the nested loops: rows outside, columns inside.\<close>

definition cells :: "Model \<Rightarrow> pos list" where
  "cells m = concat (map (\<lambda>y. map (\<lambda>x. (x, y)) (py_range (width m))) (py_range (height m)))"

definition get_exits :: "Model \<Rightarrow> pos list" where
  "get_exits m = filter (\<lambda>(x, y). cell_types m y x = EXIT) (cells m)"

definition get_cells_with_fire :: "Model \<Rightarrow> pos list" where
  "get_cells_with_fire m = filter (\<lambda>(x, y). fire_grid m y x = FIRE) (cells m)"

definition get_cells_with_smoke :: "Model \<Rightarrow> pos list" where
  "get_cells_with_smoke m = filter (\<lambda>(x, y). fire_grid m y x = SMOKE) (cells m)"

definition get_poi_at :: "Model \<Rightarrow> int \<Rightarrow> int \<Rightarrow> nat option" where
  "get_poi_at m x y =
     find (\<lambda>a. poi_x (poi_obj m a) = x \<and> poi_y (poi_obj m a) = y \<and>
                \<not> is_rescued (poi_obj m a) \<and> carried_by (poi_obj m a) = None) (pois m)"

definition remove_poi :: "Model \<Rightarrow> nat \<Rightarrow> Model" where
  "remove_poi m a = (if a \<in> set (pois m) then m\<lparr>pois := remove1 a (pois m)\<rparr> else m)"

definition has_firefighter_at :: "Model \<Rightarrow> int \<Rightarrow> int \<Rightarrow> bool" where
  "has_firefighter_at m x y = list_ex (\<lambda>f. ff_pos (ff_obj m f) = (x, y)) (agents m)"

definition is_valid_wall :: "Model \<Rightarrow> int \<Rightarrow> int \<Rightarrow> int \<Rightarrow> int \<Rightarrow> bool" where
  "is_valid_wall m x1 y1 x2 y2 \<longleftrightarrow>
     0 \<le> x1 \<and> x1 < width m \<and> 0 \<le> y1 \<and> y1 < height m \<and>
     0 \<le> x2 \<and> x2 < width m \<and> 0 \<le> y2 \<and> y2 < height m \<and>
     ((\<bar>x1 - x2\<bar> = 1 \<and> y1 = y2) \<or> (\<bar>y1 - y2\<bar> = 1 \<and> x1 = x2))"

section \<open>Action primitives of a firefighter\<close>

text \<open>
  Each method of \<^verbatim>\<open>FirefighterAgent\<close> takes the simulation and the address \<open>self\<close> of the
  firefighter and returns the method's result with the simulation after the call.
\<close>

definition move_to :: "Model \<Rightarrow> nat \<Rightarrow> int \<Rightarrow> int \<Rightarrow> bool \<times> Model" where
  "move_to m self new_x new_y =
     (let ff = ff_obj m self in
      if action_points ff \<le> 0 then (False, m)
      else if \<not> can_move_between m (ff_x ff) (ff_y ff) new_x new_y then (False, m)
      else (True, m\<lparr>ff_obj := (ff_obj m)(self := ff\<lparr>ff_pos := (new_x, new_y), ff_x := new_x,
                       ff_y := new_y, action_points := action_points ff - 1\<rparr>)\<rparr>))"

definition spend_action_point :: "Model \<Rightarrow> nat \<Rightarrow> Model" where
  "spend_action_point m self =
     m\<lparr>ff_obj := (ff_obj m)(self := (ff_obj m self)\<lparr>action_points :=
          action_points (ff_obj m self) - 1\<rparr>)\<rparr>"

definition extinguish_fire :: "Model \<Rightarrow> nat \<Rightarrow> bool \<times> Model" where
  "extinguish_fire m self =
     (let ff = ff_obj m self in
      if action_points ff \<le> 0 then (False, m)
      else (let cell_state = get_fire_state m (ff_x ff) (ff_y ff) in
            if cell_state = FIRE
            then (True, spend_action_point (set_fire_state m (ff_x ff) (ff_y ff) SMOKE) self)
            else if cell_state = SMOKE
            then (True, spend_action_point (set_fire_state m (ff_x ff) (ff_y ff) CLEAR) self)
            else (False, m)))"

definition reveal :: "Model \<Rightarrow> nat \<Rightarrow> bool \<times> Model" where
  "reveal m a =
     (\<not> is_false_alarm (poi_obj m a),
      m\<lparr>poi_obj := (poi_obj m)(a := (poi_obj m a)\<lparr>is_revealed := True\<rparr>)\<rparr>)"

definition carry :: "Model \<Rightarrow> nat \<Rightarrow> nat \<Rightarrow> Model" where
  "carry m self a =
     spend_action_point
       (m\<lparr>ff_obj := (ff_obj m)(self := (ff_obj m self)\<lparr>carrying_poi := Some a\<rparr>),
          poi_obj := (poi_obj m)(a := (poi_obj m a)\<lparr>carried_by := Some self\<rparr>)\<rparr>) self"

definition pickup_poi :: "Model \<Rightarrow> nat \<Rightarrow> bool \<times> Model" where
  "pickup_poi m self =
     (let ff = ff_obj m self in
      if action_points ff \<le> 0 \<or> carrying_poi ff \<noteq> None then (False, m)
      else (case get_poi_at m (ff_x ff) (ff_y ff) of
              None \<Rightarrow> (False, m)
            | Some poi \<Rightarrow>
                if \<not> is_rescued (poi_obj m poi) then
                  (if \<not> is_revealed (poi_obj m poi) then
                     (let (is_real, m1) = reveal m poi in
                      if \<not> is_real then (True, spend_action_point (remove_poi m1 poi) self)
                      else (True, carry m1 self poi))
                   else (True, carry m self poi))
                else (False, m)))"

definition drop_poi_at_exit :: "Model \<Rightarrow> nat \<Rightarrow> bool \<times> Model" where
  "drop_poi_at_exit m self =
     (let ff = ff_obj m self in
      case carrying_poi ff of
        None \<Rightarrow> (False, m)
      | Some poi \<Rightarrow>
          if is_exit m (ff_x ff) (ff_y ff) then
            (True, m\<lparr>poi_obj := (poi_obj m)(poi := (poi_obj m poi)\<lparr>is_rescued := True,
                        carried_by := None\<rparr>),
                      ff_obj := (ff_obj m)(self := ff\<lparr>carrying_poi := None\<rparr>),
                      rescued_pois := rescued_pois m + 1\<rparr>)
          else (False, m))"

definition get_path_to :: "Model \<Rightarrow> nat \<Rightarrow> int \<Rightarrow> int \<Rightarrow> pos list" where
  "get_path_to m self target_x target_y =
     find_path m (ff_x (ff_obj m self), ff_y (ff_obj m self)) (target_x, target_y)"

section \<open>Decision policy of a firefighter\<close>

text \<open>
  The inner loop of \<^verbatim>\<open>_assign_role\<close> for one firefighter: the least length of a non-empty
  path to a POI of the list, \<open>\<infinity>\<close> for \<^verbatim>\<open>float('inf')\<close>.
\<close>

definition ff_min_dist :: "Model \<Rightarrow> nat list \<Rightarrow> nat \<Rightarrow> enat" where
  "ff_min_dist m active_pois ff =
     fold (\<lambda>poi d.
            (let path = get_path_to m ff (poi_x (poi_obj m poi)) (poi_y (poi_obj m poi)) in
             if path \<noteq> [] then min d (enat (length path)) else d))
          active_pois \<infinity>"

definition set_role :: "Model \<Rightarrow> nat \<Rightarrow> string \<Rightarrow> Model" where
  "set_role m self r = m\<lparr>ff_obj := (ff_obj m)(self := (ff_obj m self)\<lparr>role := r\<rparr>)\<rparr>"

text \<open>
  \<^verbatim>\<open>list.sort\<close> is stable; \<open>sort_key\<close> is the stable sort of the library. The first
  loop of the method computes \<^verbatim>\<open>min_distance\<close>, which is never read, and has no
  effect.
\<close>

definition assign_role :: "Model \<Rightarrow> nat \<Rightarrow> Model" where
  "assign_role m self =
     (let active_pois = filter (\<lambda>poi. \<not> is_rescued (poi_obj m poi)) (pois m) in
      if active_pois = [] then set_role m self ''fire_fighter''
      else (let all_firefighters = agents m;
                firefighter_distances =
                  map (\<lambda>ff. (ff, ff_min_dist m active_pois ff)) all_firefighters;
                ranked = sort_key snd firefighter_distances;
                top_3 = map fst (take 3 ranked)
            in set_role m self (if self \<in> set top_3 then ''rescuer'' else ''fire_fighter'')))"

definition manhattan :: "int \<Rightarrow> int \<Rightarrow> int \<Rightarrow> int \<Rightarrow> int" where
  "manhattan x1 y1 x2 y2 = \<bar>x1 - x2\<bar> + \<bar>y1 - y2\<bar>"

text \<open>The shared tail of the behaviours: one step along the path to a target, if any.\<close>

definition step_towards :: "Model \<Rightarrow> nat \<Rightarrow> int \<Rightarrow> int \<Rightarrow> bool \<times> Model" where
  "step_towards m self target_x target_y =
     (let path = get_path_to m self target_x target_y in
      if path \<noteq> [] \<and> length path > 1
      then (let next_pos = path ! 1 in move_to m self (fst next_pos) (snd next_pos))
      else (False, m))"

definition rescue_behavior :: "Model \<Rightarrow> nat \<Rightarrow> Model" where
  "rescue_behavior m self =
     (let ff = ff_obj m self in
      if carrying_poi ff \<noteq> None then
        (case get_exits m of
           [] \<Rightarrow> m
         | e # es \<Rightarrow>
             (let nearest_exit =
                    py_min_key (\<lambda>e. manhattan (fst e) (snd e) (ff_x ff) (ff_y ff)) e es;
                  (moved, m1) = step_towards m self (fst nearest_exit) (snd nearest_exit)
              in if moved then
                   (if is_exit m1 (ff_x (ff_obj m1 self)) (ff_y (ff_obj m1 self))
                    then snd (drop_poi_at_exit m1 self) else m1)
                 else m1))
      else
        (case filter (\<lambda>poi. \<not> is_rescued (poi_obj m poi) \<and> carried_by (poi_obj m poi) = None)
                (pois m) of
           [] \<Rightarrow> m
         | p # ps \<Rightarrow>
             (let nearest_poi =
                    py_min_key (\<lambda>poi. manhattan (poi_x (poi_obj m poi)) (poi_y (poi_obj m poi))
                                  (ff_x ff) (ff_y ff)) p ps
              in if ff_x ff = poi_x (poi_obj m nearest_poi) \<and>
                    ff_y ff = poi_y (poi_obj m nearest_poi)
                 then snd (pickup_poi m self)
                 else snd (step_towards m self (poi_x (poi_obj m nearest_poi))
                             (poi_y (poi_obj m nearest_poi))))))"

definition firefighting_behavior :: "Model \<Rightarrow> nat \<Rightarrow> Model" where
  "firefighting_behavior m self =
     (let ff = ff_obj m self;
          fire_cells = get_cells_with_fire m;
          smoke_cells = get_cells_with_smoke m;
          target_cells = (if fire_cells \<noteq> [] then fire_cells else smoke_cells)
      in case target_cells of
           [] \<Rightarrow> m
         | c # cs \<Rightarrow>
             (let nearest = py_min_key (\<lambda>c. manhattan (fst c) (snd c) (ff_x ff) (ff_y ff)) c cs
              in if ff_x ff = fst nearest \<and> ff_y ff = snd nearest
                 then snd (extinguish_fire m self)
                 else snd (step_towards m self (fst nearest) (snd nearest))))"

definition reset_action_points :: "Model \<Rightarrow> nat \<Rightarrow> Model" where
  "reset_action_points m self =
     m\<lparr>ff_obj := (ff_obj m)(self := (ff_obj m self)\<lparr>action_points :=
          max_action_points (ff_obj m self)\<rparr>)\<rparr>"

definition agent_step :: "Model \<Rightarrow> nat \<Rightarrow> Model" where
  "agent_step m self =
     (let m1 = reset_action_points m self;
          m2 = assign_role m1 self
      in if role (ff_obj m2 self) = ''rescuer'' then rescue_behavior m2 self
         else firefighting_behavior m2 self)"

section \<open>Fire spread and explosions\<close>

text \<open>
  The random source is an explicit input: \<open>rnd k\<close> is the value of the \<open>k\<close>-th call of
  \<^verbatim>\<open>random.random()\<close>, and every function that draws takes the number of draws made so
  far and returns it advanced.
\<close>

type_synonym draws = "nat \<Rightarrow> real"

type_synonym grid = "int \<Rightarrow> int \<Rightarrow> FireState"

definition grid_set :: "grid \<Rightarrow> int \<Rightarrow> int \<Rightarrow> FireState \<Rightarrow> grid" where
  "grid_set g y x v = g(y := (g y)(x := v))"

text \<open>The body of the loop over the four directions in \<^verbatim>\<open>spread_fire\<close>, for the fire cell \<open>(x, y)\<close>.\<close>

definition spread_to :: "Model \<Rightarrow> draws \<Rightarrow> int \<Rightarrow> int \<Rightarrow> int \<times> int \<Rightarrow> grid \<times> nat \<Rightarrow> grid \<times> nat" where
  "spread_to m rnd x y = (\<lambda>(dx, dy) (new_fire_grid, k).
     (let nx = x + dx; ny = y + dy in
      if 0 \<le> nx \<and> nx < width m \<and> 0 \<le> ny \<and> ny < height m \<and> fire_grid m ny nx = CLEAR then
        (if \<not> has_wall_between m x y nx ny
         then (if rnd k < 0.2 then grid_set new_fire_grid ny nx SMOKE else new_fire_grid, k + 1)
         else (new_fire_grid, k))
      else (new_fire_grid, k)))"

text \<open>The body of the two nested loops of \<^verbatim>\<open>spread_fire\<close>, for the cell \<open>(x, y)\<close>.\<close>

definition spread_cell :: "Model \<Rightarrow> draws \<Rightarrow> int \<Rightarrow> int \<Rightarrow> grid \<times> nat \<Rightarrow> grid \<times> nat" where
  "spread_cell m rnd y x = (\<lambda>(new_fire_grid, k).
     (let current_state = fire_grid m y x in
      if current_state = SMOKE
      then (if rnd k < 0.3 then grid_set new_fire_grid y x FIRE else new_fire_grid, k + 1)
      else if current_state = FIRE
      then fold (spread_to m rnd x y) directions (new_fire_grid, k)
      else (new_fire_grid, k)))"

definition spread_fire :: "Model \<Rightarrow> draws \<Rightarrow> nat \<Rightarrow> Model \<times> nat" where
  "spread_fire m rnd k =
     (let (new_fire_grid, k') =
            fold (\<lambda>y. fold (\<lambda>x. spread_cell m rnd y x) (py_range (width m)))
              (py_range (height m)) (fire_grid m, k)
      in (m\<lparr>fire_grid := new_fire_grid\<rparr>, k'))"

definition directions8 :: "(int \<times> int) list" where
  "directions8 = [(0, 1), (0, -1), (1, 0), (-1, 0), (1, 1), (-1, -1), (1, -1), (-1, 1)]"

text \<open>
  \<^verbatim>\<open>if wall_key in self.walls: self.walls[wall_key].take_damage(1)\<close>, the only place where
  a wall is damaged.
\<close>

definition damage_wall :: "Model \<Rightarrow> wall_key \<Rightarrow> Model" where
  "damage_wall m wall_key =
     (case walls m wall_key of
        None \<Rightarrow> m
      | Some wall \<Rightarrow> m\<lparr>walls := (walls m)(wall_key \<mapsto> snd (take_damage wall 1))\<rparr>)"

definition trigger_explosion :: "Model \<Rightarrow> int \<Rightarrow> int \<Rightarrow> Model" where
  "trigger_explosion m x y =
     (let m1 = m\<lparr>explosion_count := explosion_count m + 1\<rparr>;
          m2 = fold (\<lambda>(dx, dy) m.
                  (let nx = x + dx; ny = y + dy in
                   if 0 \<le> nx \<and> nx < width m \<and> 0 \<le> ny \<and> ny < height m
                   then damage_wall m (get_wall_key x y nx ny) else m))
                 directions m1
      in fold (\<lambda>(dx, dy) m.
                (let nx = x + dx; ny = y + dy in
                 if 0 \<le> nx \<and> nx < width m \<and> 0 \<le> ny \<and> ny < height m
                 then (if fire_grid m ny nx = CLEAR
                       then m\<lparr>fire_grid := grid_set (fire_grid m) ny nx SMOKE\<rparr> else m)
                 else m))
              directions8 m2)"

text \<open>The body of the two nested loops of \<^verbatim>\<open>check_explosions\<close>, for the cell \<open>(x, y)\<close>.\<close>

definition check_cell :: "draws \<Rightarrow> int \<Rightarrow> int \<Rightarrow> Model \<times> nat \<Rightarrow> Model \<times> nat" where
  "check_cell rnd y x = (\<lambda>(m, k).
     if fire_grid m y x = FIRE \<and> cell_types m y x = HOTSPOT
     then (if rnd k < 0.1 then trigger_explosion m x y else m, k + 1)
     else (m, k))"

definition check_explosions :: "Model \<Rightarrow> draws \<Rightarrow> nat \<Rightarrow> Model \<times> nat" where
  "check_explosions m rnd k =
     fold (\<lambda>y (m, k). fold (\<lambda>x. check_cell rnd y x) (py_range (width m)) (m, k))
       (py_range (height m)) (m, k)"

section \<open>One step of the simulation\<close>

text \<open>
  \<^verbatim>\<open>self.schedule.step()\<close> of the random-activation scheduler: it shuffles its agent
  sequence in place and calls \<^verbatim>\<open>step\<close> of each agent in that order. The outcome of the
  shuffle is the explicit input \<open>order\<close>, a rearrangement of \<open>agents m\<close>.
\<close>

definition schedule_step :: "Model \<Rightarrow> nat list \<Rightarrow> Model" where
  "schedule_step m order = fold (\<lambda>self m. agent_step m self) order (m\<lparr>agents := order\<rparr>)"

definition model_step :: "Model \<Rightarrow> nat list \<Rightarrow> draws \<Rightarrow> nat \<Rightarrow> Model \<times> nat" where
  "model_step m order rnd k =
     (let m1 = schedule_step m order;
          (m2, k1) = spread_fire m1 rnd k
      in check_explosions m2 rnd k1)"

section \<open>Construction\<close>

text \<open>
  The constructor has no check of its own. It can fail only inside a library call, and
  those failures are the errors of the model: allocating an array or a grid with a
  negative dimension (\<open>ValueError\<close>), placing an agent on a cell outside the lists of the
  grid (\<open>IndexError\<close>), and \<^verbatim>\<open>random.sample\<close> with a negative sample size
  (\<open>ValueError\<close>).
\<close>

datatype error = ValueError | IndexError

definition blank_POI :: POI where
  "blank_POI = \<lparr>poi_id = 0, poi_x = 0, poi_y = 0, is_false_alarm = False,
     is_revealed = False, is_rescued = False, carried_by = None\<rparr>"

definition new_POI :: "nat \<Rightarrow> int \<Rightarrow> int \<Rightarrow> bool \<Rightarrow> POI" where
  "new_POI i x y fa = \<lparr>poi_id = i, poi_x = x, poi_y = y, is_false_alarm = fa,
     is_revealed = False, is_rescued = False, carried_by = None\<rparr>"

definition new_Firefighter :: "int \<Rightarrow> int \<Rightarrow> Firefighter" where
  "new_Firefighter x y = \<lparr>ff_x = x, ff_y = y, ff_pos = (x, y), action_points = 4,
     max_action_points = 4, carrying_poi = None, role = ''unassigned''\<rparr>"

definition blank_Firefighter :: Firefighter where
  "blank_Firefighter = new_Firefighter 0 0"

definition setup_exits :: "Model \<Rightarrow> Model" where
  "setup_exits m =
     fold (\<lambda>(x, y) m.
            if 0 \<le> x \<and> x < width m \<and> 0 \<le> y \<and> y < height m
            then m\<lparr>cell_types := (cell_types m)(y := (cell_types m y)(x := EXIT))\<rparr> else m)
       [(0, 3), (0, 4), (9, 3), (9, 4)] m"

definition interior_walls :: "(pos \<times> pos) list" where
  "interior_walls =
     [((2, 1), (2, 2)), ((2, 2), (2, 3)), ((6, 1), (6, 2)), ((6, 2), (6, 3)),
      ((1, 2), (2, 2)), ((3, 2), (4, 2)), ((5, 2), (6, 2)), ((7, 2), (8, 2))]"

definition create_walls :: "Model \<Rightarrow> Model" where
  "create_walls m =
     (let m1 = fold (\<lambda>y m. fold (\<lambda>x m.
                  (let m' = (if x < width m - 1
                             then m\<lparr>walls := (walls m)((x, y, x + 1, y) \<mapsto> new_Wall (wall_health m))\<rparr>
                             else m)
                   in if y < height m' - 1
                      then m'\<lparr>walls := (walls m')((x, y, x, y + 1) \<mapsto> new_Wall (wall_health m'))\<rparr>
                      else m'))
                  (py_range (width m)) m) (py_range (height m)) m
      in fold (\<lambda>((x1, y1), (x2, y2)) m.
                if is_valid_wall m x1 y1 x2 y2
                then (let wall_key = get_wall_key x1 y1 x2 y2 in
                      if walls m wall_key = None
                      then m\<lparr>walls := (walls m)(wall_key \<mapsto> new_Wall (wall_health m))\<rparr>
                      else m)
                else m)
           interior_walls m1)"

definition start_positions :: "pos list" where
  "start_positions = [(1, 3), (1, 4), (8, 3), (8, 4), (4, 0)]"

text \<open>
  The loop of \<^verbatim>\<open>_place_firefighters\<close> over the start positions it uses. A new
  firefighter gets the next free address. \<^verbatim>\<open>place_agent\<close> indexes the lists of the
  grid with the (non-negative) start position.
\<close>

fun place_firefighters :: "Model \<Rightarrow> pos list \<Rightarrow> error + Model" where
  "place_firefighters m [] = Inr m"
| "place_firefighters m ((x, y) # ps) =
     (if \<not> (0 \<le> x \<and> x < width m \<and> 0 \<le> y \<and> y < height m) then Inl IndexError
      else place_firefighters
             (m\<lparr>agents := agents m @ [length (agents m)],
                ff_obj := (ff_obj m)(length (agents m) := new_Firefighter x y)\<rparr>) ps)"

definition place_initial_fires :: "Model \<Rightarrow> Model" where
  "place_initial_fires m =
     fold (\<lambda>(x, y) m.
            if 0 \<le> x \<and> x < width m \<and> 0 \<le> y \<and> y < height m
            then m\<lparr>fire_grid := grid_set (fire_grid m) y x FIRE,
                   cell_types := (cell_types m)(y := (cell_types m y)(x := HOTSPOT))\<rparr>
            else m)
       [(3, 3), (6, 4), (4, 6)] m"

text \<open>
  \<^verbatim>\<open>_place_pois\<close>. The outcome of \<^verbatim>\<open>random.sample(available_positions, n)\<close> is the
  explicit input \<open>sample\<close>; the false-alarm draws are taken from \<open>rnd\<close>. The POI with
  identifier \<open>i\<close> is stored at address \<open>i\<close>.
\<close>

definition available_positions :: "Model \<Rightarrow> pos list" where
  "available_positions m =
     filter (\<lambda>(x, y). fire_grid m y x = CLEAR \<and> cell_types m y x \<noteq> EXIT \<and>
               \<not> has_firefighter_at m x y) (cells m)"

text \<open>The loop of \<^verbatim>\<open>_place_pois\<close> over the enumerated sample.\<close>

definition add_pois :: "Model \<Rightarrow> pos list \<Rightarrow> draws \<Rightarrow> Model" where
  "add_pois m positions rnd =
     fold (\<lambda>(i, (x, y)) m.
             m\<lparr>pois := pois m @ [i],
               poi_obj := (poi_obj m)(i := new_POI i x y (rnd i < 0.3))\<rparr>)
       (List.enumerate 0 positions) m"

definition place_pois :: "Model \<Rightarrow> int \<Rightarrow> (pos list \<Rightarrow> nat \<Rightarrow> pos list) \<Rightarrow> draws \<Rightarrow> error + Model" where
  "place_pois m num_pois sample rnd =
     (let n = min num_pois (int (length (available_positions m)))
      in if n < 0 then Inl ValueError
         else (let positions = sample (available_positions m) (nat n) in
               Inr (add_pois m positions rnd)))"

text \<open>The attributes as the constructor sets them before it calls its set-up methods.\<close>

definition empty_model :: "int \<Rightarrow> int \<Rightarrow> int \<Rightarrow> Model" where
  "empty_model w h wh =
     \<lparr>width = w, height = h, wall_health = wh, rescued_pois = 0, explosion_count = 0,
      fire_grid = (\<lambda>y x. CLEAR), cell_types = (\<lambda>y x. NORMAL), walls = Map.empty,
      pois = [], poi_obj = (\<lambda>a. blank_POI), agents = [], ff_obj = (\<lambda>a. blank_Firefighter)\<rparr>"

definition init_model ::
    "int \<Rightarrow> int \<Rightarrow> int \<Rightarrow> int \<Rightarrow> int \<Rightarrow> (pos list \<Rightarrow> nat \<Rightarrow> pos list) \<Rightarrow> draws \<Rightarrow> error + Model" where
  "init_model w h num_firefighters initial_pois wh sample rnd =
     (if w < 0 \<or> h < 0 then Inl ValueError
      else (let m1 = create_walls (setup_exits (empty_model w h wh))
            in case place_firefighters m1 (take (nat (min num_firefighters 5)) start_positions) of
                 Inl e \<Rightarrow> Inl e
               | Inr m2 \<Rightarrow> place_pois (place_initial_fires m2) initial_pois sample rnd))"

section \<open>Paths in the traversal graph\<close>

text \<open>
  The graph the search explores: an edge from \<open>a\<close> to \<open>b\<close> is a pair accepted by
  \<^verbatim>\<open>can_move_between\<close>. A walk is a sequence of positions whose consecutive pairs are
  edges; \<open>reachable\<close> and \<open>shortest_from_to\<close> are the specification the search is
  compared with.
\<close>


definition edge :: "Model \<Rightarrow> pos \<Rightarrow> pos \<Rightarrow> bool" where
  "edge m a b = can_move_between m (fst a) (snd a) (fst b) (snd b)"

fun walk :: "Model \<Rightarrow> pos list \<Rightarrow> bool" where
  "walk m [] = True"
| "walk m [a] = True"
| "walk m (a # b # ps) = (edge m a b \<and> walk m (b # ps))"

definition path_from_to :: "Model \<Rightarrow> pos \<Rightarrow> pos \<Rightarrow> pos list \<Rightarrow> bool" where
  "path_from_to m s g ps \<longleftrightarrow> ps \<noteq> [] \<and> hd ps = s \<and> last ps = g \<and> walk m ps"

definition reachable :: "Model \<Rightarrow> pos \<Rightarrow> pos \<Rightarrow> bool" where
  "reachable m s g \<longleftrightarrow> (\<exists>ps. path_from_to m s g ps)"

definition shortest_from_to :: "Model \<Rightarrow> pos \<Rightarrow> pos \<Rightarrow> pos list \<Rightarrow> bool" where
  "shortest_from_to m s g ps \<longleftrightarrow>
     path_from_to m s g ps \<and> (\<forall>qs. path_from_to m s g qs \<longrightarrow> length ps \<le> length qs)"

lemma walk_snoc: "walk m (ps @ [w]) \<longleftrightarrow> ps = [] \<or> (walk m ps \<and> edge m (last ps) w)"
  by (induction m ps rule: walk.induct) auto

lemma path_from_to_snoc:
  "path_from_to m s p ps \<Longrightarrow> edge m p w \<Longrightarrow> path_from_to m s w (ps @ [w])"
  by (auto simp: path_from_to_def walk_snoc)

lemma path_from_to_butlast:
  assumes "path_from_to m s w ps" "2 \<le> length ps"
  shows "path_from_to m s (last (butlast ps)) (butlast ps) \<and> edge m (last (butlast ps)) w"
proof -
  from assms obtain qs where ps: "ps = qs @ [w]"
    by (metis append_butlast_last_id path_from_to_def)
  with assms have "qs \<noteq> []" by auto
  with assms ps show ?thesis
    by (auto simp: path_from_to_def walk_snoc)
qed

lemma closed_walk:
  assumes "\<forall>v\<in>V. \<forall>w. edge m v w \<longrightarrow> w \<in> V"
  shows "walk m ps \<Longrightarrow> ps \<noteq> [] \<Longrightarrow> hd ps \<in> V \<Longrightarrow> last ps \<in> V"
  using assms by (induction m ps rule: walk.induct) auto

lemma edge_direction:
  "edge m (x, y) w \<Longrightarrow> \<exists>(dx, dy) \<in> set directions. w = (x + dx, y + dy)"
proof -
  assume e: "edge m (x, y) w"
  obtain a b where w: "w = (a, b)" by (cases w)
  with e have "\<bar>x - a\<bar> + \<bar>y - b\<bar> = 1"
    by (auto simp: edge_def can_move_between_def split: if_splits)
  then have "(a = x \<and> b = y + 1) \<or> (a = x \<and> b = y + (-1)) \<or> (a = x + 1 \<and> b = y) \<or> (a = x + (-1) \<and> b = y)"
    by arith
  with w show ?thesis by (auto simp: directions_def)
qed

lemma expand_found:
  "expand m goal p path ds queue visited = Inl found \<Longrightarrow>
   found = path @ [goal] \<and> edge m p goal"
proof (induction m goal p path ds queue visited rule: expand.induct)
  case (1 m goal x y path queue visited)
  then show ?case by simp
next
  case (2 m goal x y path dx dy ds queue visited)
  then show ?case
    by (auto simp: Let_def edge_def split: if_splits)
qed

lemma expand_covers:
  "expand m goal (x, y) path ds queue visited = Inr (queue', visited') \<Longrightarrow>
   goal \<notin> visited \<Longrightarrow>
   goal \<notin> visited' \<and> (\<forall>w\<in>visited' - visited. edge m (x, y) w) \<and>
   (\<forall>(dx, dy)\<in>set ds. edge m (x, y) (x + dx, y + dy) \<longrightarrow> (x + dx, y + dy) \<in> visited')"
proof (induction m goal "(x, y)" path ds queue visited rule: expand.induct)
  case (1 m goal path queue visited)
  then show ?case by simp
next
  case (2 m goal path dx dy ds queue visited)
  let ?n = "(x + dx, y + dy)"
  show ?case
  proof (cases "?n \<notin> visited \<and> can_move_between m x y (x + dx) (y + dy)")
    case True
    with "2.prems" have ne: "?n \<noteq> goal" and
      r: "expand m goal (x, y) path ds (queue @ [(?n, path @ [?n])]) (insert ?n visited)
          = Inr (queue', visited')"
      by (auto simp: Let_def split: if_splits)
    from ne "2.prems"(2) have g: "goal \<notin> insert ?n visited" by auto
    note IH = "2.hyps"(1) [OF refl refl True refl ne r g]
    from expand_result [OF r] have "?n \<in> visited'" by auto
    with IH True show ?thesis by (auto simp: edge_def)
  next
    case False
    with "2.prems" have
      r: "expand m goal (x, y) path ds queue visited = Inr (queue', visited')"
      by (auto simp: Let_def split: if_splits)
    note IH = "2.hyps"(2) [OF refl refl False r "2.prems"(2)]
    from expand_result [OF r] have "visited \<subseteq> visited'" by auto
    with IH False show ?thesis by (auto simp: edge_def)
  qed
qed


definition bfs_inv :: "Model \<Rightarrow> pos \<Rightarrow> pos \<Rightarrow> (pos \<times> pos list) list \<Rightarrow> pos set \<Rightarrow> bool" where
  "bfs_inv m start goal queue visited \<longleftrightarrow>
     start \<in> visited \<and> goal \<notin> visited \<and>
     (\<forall>(p, path)\<in>set queue. shortest_from_to m start p path \<and> p \<in> visited) \<and>
     sorted (map (\<lambda>e. length (snd e)) queue) \<and>
     (\<forall>e\<in>set queue. length (snd e) \<le> length (snd (hd queue)) + 1) \<and>
     (\<forall>v\<in>visited. v \<in> fst ` set queue \<or> (\<forall>w. edge m v w \<longrightarrow> w \<in> visited)) \<and>
     (queue \<noteq> [] \<longrightarrow>
        (\<forall>w ps. path_from_to m start w ps \<and> length ps \<le> length (snd (hd queue)) \<longrightarrow>
           w \<in> visited))"

lemma bfs_inv_init:
  assumes "start \<noteq> goal"
  shows "bfs_inv m start goal [(start, [start])] {start}"
proof -
  have "shortest_from_to m start start [start]"
    by (auto simp: shortest_from_to_def path_from_to_def Suc_le_eq)
  moreover have "w = start" if "path_from_to m start w ps" "length ps \<le> 1" for w ps
  proof -
    from that obtain a where "ps = [a]"
      by (cases ps) (auto simp: path_from_to_def)
    with that show ?thesis by (auto simp: path_from_to_def)
  qed
  ultimately show ?thesis using assms
    by (auto simp: bfs_inv_def)
qed

lemma bfs_inv_empty:
  assumes "bfs_inv m start goal [] visited"
  shows "\<not> reachable m start goal"
proof
  assume "reachable m start goal"
  then obtain ps where ps: "path_from_to m start goal ps"
    by (auto simp: reachable_def)
  from assms have cl: "\<forall>v\<in>visited. \<forall>w. edge m v w \<longrightarrow> w \<in> visited"
    and s: "start \<in> visited" and g: "goal \<notin> visited"
    by (auto simp: bfs_inv_def)
  from closed_walk [OF cl, of ps] ps s have "goal \<in> visited"
    by (auto simp: path_from_to_def)
  with g show False by simp
qed

lemma bfs_inv_found:
  assumes inv: "bfs_inv m start goal ((p, path) # queue) visited"
    and ex: "expand m goal p path directions queue visited = Inl found"
  shows "shortest_from_to m start goal found"
proof -
  from expand_found [OF ex] have f: "found = path @ [goal]" and e: "edge m p goal"
    by auto
  from inv have sp: "path_from_to m start p path"
    and g: "goal \<notin> visited"
    by (auto simp: bfs_inv_def shortest_from_to_def)
  from inv have "\<forall>w ps. path_from_to m start w ps \<and> length ps \<le> length path \<longrightarrow> w \<in> visited"
    by (simp add: bfs_inv_def)
  then have near: "\<And>w ps. path_from_to m start w ps \<Longrightarrow> length ps \<le> length path \<Longrightarrow> w \<in> visited"
    by blast
  have "length found \<le> length qs" if "path_from_to m start goal qs" for qs
  proof (rule ccontr)
    assume "\<not> length found \<le> length qs"
    with f have "length qs \<le> length path" by simp
    from near [OF that this] g show False by simp
  qed
  with path_from_to_snoc [OF sp e] f show ?thesis
    by (simp add: shortest_from_to_def)
qed

lemma sorted_hd_le:
  "sorted (map f xs) \<Longrightarrow> e \<in> set xs \<Longrightarrow> f (hd xs) \<le> f e"
  by (cases xs) auto

lemma bfs_inv_step:
  assumes inv: "bfs_inv m start goal ((p, path) # queue) visited"
    and ex: "expand m goal p path directions queue visited = Inr (queue', visited')"
  shows "bfs_inv m start goal queue' visited'"
proof -
  obtain x y where p: "p = (x, y)" by (cases p)
  from expand_result [OF ex] obtain ws where
    q': "queue' = queue @ map (\<lambda>w. (w, path @ [w])) ws" and v': "visited' = visited \<union> set ws"
    and new: "set ws \<subseteq> in_bounds m - visited"
    by blast
  from inv have s: "start \<in> visited" and g: "goal \<notin> visited"
    and sp: "shortest_from_to m start p path"
    and qs: "\<And>q pth. (q, pth) \<in> set queue \<Longrightarrow> shortest_from_to m start q pth \<and> q \<in> visited"
    and srt: "sorted (map (\<lambda>e. length (snd e)) queue)"
    and lo: "\<And>e. e \<in> set queue \<Longrightarrow> length path \<le> length (snd e)"
    and hi: "\<And>e. e \<in> set queue \<Longrightarrow> length (snd e) \<le> length path + 1"
    and cl: "\<And>v. v \<in> visited \<Longrightarrow> v = p \<or> v \<in> fst ` set queue \<or> (\<forall>w. edge m v w \<longrightarrow> w \<in> visited)"
    by (auto simp: bfs_inv_def)
  from inv have "\<forall>w ps. path_from_to m start w ps \<and> length ps \<le> length path \<longrightarrow> w \<in> visited"
    by (simp add: bfs_inv_def)
  then have near: "\<And>w ps. path_from_to m start w ps \<Longrightarrow> length ps \<le> length path \<Longrightarrow> w \<in> visited"
    by blast
  from expand_covers [OF ex [unfolded p] g] have g': "goal \<notin> visited'"
    and ed: "\<And>w. w \<in> set ws \<Longrightarrow> edge m p w"
    and cov: "\<And>dx dy. (dx, dy) \<in> set directions \<Longrightarrow> edge m p (x + dx, y + dy) \<Longrightarrow>
               (x + dx, y + dy) \<in> visited'"
    using new by (auto simp: p v')
  have pcl: "w \<in> visited'" if "edge m p w" for w
    using edge_direction [OF that [unfolded p]] cov that by (auto simp: p)
  have lo': "length path \<le> length (snd e)" if "e \<in> set queue'" for e
    using that lo [of e] by (auto simp: q')
  have hi': "length (snd e) \<le> length path + 1" if "e \<in> set queue'" for e
    using that hi [of e] by (auto simp: q')
  have srt': "sorted (map (\<lambda>e. length (snd e)) queue')"
    using srt hi by (auto simp: q' sorted_append comp_def map_replicate_const)
  have newsp: "shortest_from_to m start w (path @ [w])" if w: "w \<in> set ws" for w
  proof -
    from sp have "path_from_to m start p path" by (simp add: shortest_from_to_def)
    from path_from_to_snoc [OF this ed [OF w]] have 1: "path_from_to m start w (path @ [w])" .
    have "length (path @ [w]) \<le> length rs" if rs: "path_from_to m start w rs" for rs
    proof (rule ccontr)
      assume "\<not> length (path @ [w]) \<le> length rs"
      then have "length rs \<le> length path" by simp
      from near [OF rs this] w new show False by auto
    qed
    with 1 show ?thesis by (simp add: shortest_from_to_def)
  qed
  have qs': "shortest_from_to m start q pth \<and> q \<in> visited'" if "(q, pth) \<in> set queue'" for q pth
    using that qs [of q pth] newsp [of q] by (auto simp: q' v')
  have cl': "v \<in> fst ` set queue' \<or> (\<forall>w. edge m v w \<longrightarrow> w \<in> visited')" if "v \<in> visited'" for v
  proof (cases "v \<in> visited")
    case True
    from cl [OF this] pcl show ?thesis by (auto simp: q' v')
  next
    case False
    with that have "v \<in> set ws" by (simp add: v')
    then show ?thesis by (force simp: q')
  qed
  have near': "w \<in> visited'"
    if ne: "queue' \<noteq> []" and rs: "path_from_to m start w rs"
      and len: "length rs \<le> length (snd (hd queue'))" for w rs
  proof (cases "length rs \<le> length path")
    case True
    from near [OF rs this] show ?thesis by (simp add: v')
  next
    case False
    from ne have hdq: "hd queue' \<in> set queue'" by simp
    from False len hi' [OF hdq] have L: "length rs = length path + 1" by simp
    from sp have "path \<noteq> []" by (simp add: shortest_from_to_def path_from_to_def)
    with L have "2 \<le> length rs" by (cases path) auto
    from path_from_to_butlast [OF rs this] obtain u where
      u: "path_from_to m start u (butlast rs)" "edge m u w"
      by blast
    from L have lb: "length (butlast rs) = length path" by simp
    with near [OF u(1)] have uv: "u \<in> visited" by simp
    from cl [OF uv] show ?thesis
    proof (elim disjE)
      assume "u = p"
      with u(2) pcl show ?thesis by simp
    next
      assume "u \<in> fst ` set queue"
      then obtain pth where e: "(u, pth) \<in> set queue" by auto
      then have e': "(u, pth) \<in> set queue'" by (simp add: q')
      from sorted_hd_le [OF srt' e'] L len have "length path + 1 \<le> length pth" by simp
      moreover from qs [OF e] u(1) lb have "length pth \<le> length path"
        by (auto simp: shortest_from_to_def)
      ultimately show ?thesis by simp
    next
      assume "\<forall>w. edge m u w \<longrightarrow> w \<in> visited"
      with u(2) have "w \<in> visited" by blast
      then show ?thesis by (simp add: v')
    qed
  qed
  have hd': "length (snd e) \<le> length (snd (hd queue')) + 1" if "e \<in> set queue'" for e
  proof -
    from that have "queue' \<noteq> []" by auto
    then have "hd queue' \<in> set queue'" by simp
    from lo' [OF this] hi' [OF that] show ?thesis by simp
  qed
  show ?thesis
    unfolding bfs_inv_def
  proof (intro conjI)
    show "start \<in> visited'" using s by (simp add: v')
    show "goal \<notin> visited'" by (rule g')
    show "\<forall>(p, path)\<in>set queue'. shortest_from_to m start p path \<and> p \<in> visited'"
      using qs' by blast
    show "sorted (map (\<lambda>e. length (snd e)) queue')" by (rule srt')
    show "\<forall>e\<in>set queue'. length (snd e) \<le> length (snd (hd queue')) + 1"
      using hd' by blast
    show "\<forall>v\<in>visited'. v \<in> fst ` set queue' \<or> (\<forall>w. edge m v w \<longrightarrow> w \<in> visited')"
      using cl' by blast
    show "queue' \<noteq> [] \<longrightarrow>
        (\<forall>w ps. path_from_to m start w ps \<and> length ps \<le> length (snd (hd queue')) \<longrightarrow>
           w \<in> visited')"
      using near' by blast
  qed
qed

lemma bfs_loop_correct:
  "bfs_inv m start goal queue visited \<Longrightarrow>
   (bfs_loop m goal queue visited = [] \<longrightarrow> \<not> reachable m start goal) \<and>
   (bfs_loop m goal queue visited \<noteq> [] \<longrightarrow>
      shortest_from_to m start goal (bfs_loop m goal queue visited))"
proof (induction m goal queue visited rule: bfs_loop.induct)
  case (1 m goal visited)
  from bfs_inv_empty [OF this] show ?case by simp
next
  case (2 m goal p path queue visited)
  show ?case
  proof (cases "expand m goal p path directions queue visited")
    case (Inl found)
    from bfs_inv_found [OF "2.prems" Inl] have sh: "shortest_from_to m start goal found" .
    then have "found \<noteq> []" by (simp add: shortest_from_to_def path_from_to_def)
    with sh Inl show ?thesis by simp
  next
    case (Inr r)
    obtain queue' visited' where r: "r = (queue', visited')" by (cases r)
    from bfs_inv_step [OF "2.prems" Inr [unfolded r]]
    have "bfs_inv m start goal queue' visited'" .
    from "2.IH" [OF Inr r [symmetric] this] Inr r show ?thesis by simp
  qed
qed


text \<open>
  C1. For every pair of positions, \<^verbatim>\<open>find_path\<close> returns \<open>[start]\<close> exactly when
  \<open>start = goal\<close>; otherwise it returns the empty list exactly when the goal is not
  reachable from the start through pairs accepted by \<^verbatim>\<open>can_move_between\<close>; and when
  the goal is reachable the result is a walk from start to goal that no walk from
  start to goal is shorter than.
\<close>

theorem find_path_correct:
  "(find_path m start goal = [start] \<longleftrightarrow> start = goal) \<and>
   (start \<noteq> goal \<longrightarrow> (find_path m start goal = [] \<longleftrightarrow> \<not> reachable m start goal)) \<and>
   (reachable m start goal \<longrightarrow> shortest_from_to m start goal (find_path m start goal))"
proof (cases "start = goal")
  case True
  have "shortest_from_to m start start [start]"
    by (auto simp: shortest_from_to_def path_from_to_def Suc_le_eq)
  with True show ?thesis by (simp add: find_path_def)
next
  case False
  let ?r = "bfs_loop m goal [(start, [start])] {start}"
  from bfs_loop_correct [OF bfs_inv_init [OF False]]
  have 1: "?r = [] \<longrightarrow> \<not> reachable m start goal"
    and 2: "?r \<noteq> [] \<longrightarrow> shortest_from_to m start goal ?r"
    by auto
  have 3: "?r \<noteq> [start]"
  proof
    assume "?r = [start]"
    with 2 have "path_from_to m start goal [start]" by (simp add: shortest_from_to_def)
    with False show False by (simp add: path_from_to_def)
  qed
  from 2 have 4: "?r \<noteq> [] \<longrightarrow> reachable m start goal"
    by (auto simp: shortest_from_to_def reachable_def)
  from False 1 2 3 4 show ?thesis
    by (auto simp: find_path_def)
qed


definition corridor :: Model where
  "corridor = \<lparr>width = 3, height = 2, wall_health = 2, rescued_pois = 0, explosion_count = 0,
     fire_grid = (\<lambda>y x. CLEAR), cell_types = (\<lambda>y x. NORMAL),
     walls = [(0, 0, 1, 0) \<mapsto> new_Wall 2], pois = [], poi_obj = (\<lambda>a. blank_POI),
     agents = [], ff_obj = (\<lambda>a. blank_Firefighter)\<rparr>"

lemmas eval_defs = find_path_def directions_def can_move_between_def has_wall_between_def
  get_wall_key_def is_destroyed_def new_Wall_def

theorem find_path_correct_witness:
  "(0, 0) \<noteq> ((2, 0) :: pos) \<and> reachable corridor (0, 0) (2, 0) \<and>
   find_path corridor (0, 0) (2, 0) = [(0, 0), (0, 1), (1, 1), (1, 0), (2, 0)] \<and>
   find_path corridor (0, 0) (2, 0) \<noteq> [(0, 0)] \<and>
   shortest_from_to corridor (0, 0) (2, 0) [(0, 0), (0, 1), (1, 1), (1, 0), (2, 0)]"
proof -
  have ev: "find_path corridor (0, 0) (2, 0) = [(0, 0), (0, 1), (1, 1), (1, 0), (2, 0)]"
    by (simp add: corridor_def eval_defs)
  have "path_from_to corridor (0, 0) (2, 0) [(0, 0), (0, 1), (1, 1), (1, 0), (2, 0)]"
    by (simp add: path_from_to_def edge_def corridor_def eval_defs)
  then have r: "reachable corridor (0, 0) (2, 0)"
    unfolding reachable_def by blast
  with find_path_correct [of corridor "(0, 0)" "(2, 0)"] ev show ?thesis
    by simp
qed


section \<open>Wall damage\<close>


definition unit_damage :: "Wall \<Rightarrow> Wall" where
  "unit_damage w = snd (take_damage w 1)"

lemma health_unit_damage: "health (unit_damage w) = max 0 (health w - 1)"
  by (simp add: unit_damage_def take_damage_def Let_def)

lemma health_unit_damage_funpow:
  "health ((unit_damage ^^ n) w) = (if n = 0 then health w else max 0 (health w - int n))"
proof (induction n)
  case 0
  show ?case by simp
next
  case (Suc n)
  then show ?case by (auto simp: health_unit_damage)
qed

lemma damage_wall_funpow:
  "walls m key = Some w \<Longrightarrow>
   walls (((\<lambda>m. damage_wall m key) ^^ n) m) key = Some ((unit_damage ^^ n) w)"
proof (induction n)
  case 0
  then show ?case by simp
next
  case (Suc n)
  then show ?case by (simp add: damage_wall_def unit_damage_def)
qed


text \<open>
  C7, as the claim states it, fails for a wall created with negative health, which the
  constructor of \<^verbatim>\<open>Wall\<close> and \<^verbatim>\<open>_create_walls\<close> accept: before the first damage its
  health is the negative value it was created with, not \<open>max 0 (h - 0)\<close>.
\<close>

theorem negative_wall_health_counterexample:
  "health ((unit_damage ^^ 0) (new_Wall (- 3))) = - 3 \<and>
   health ((unit_damage ^^ 0) (new_Wall (- 3))) < 0 \<and>
   health ((unit_damage ^^ 0) (new_Wall (- 3))) \<noteq> max 0 (- 3 - int 0)"
  by (simp add: new_Wall_def)

text \<open>
  C7, amended. For every wall created with health \<open>h\<close> (of either sign) and registered for
  a pair of cells, \<open>n\<close> unit damages leave its health at \<open>h\<close> when \<open>n = 0\<close> and at
  \<open>max 0 (h - n)\<close> when \<open>n \<ge> 1\<close>: for \<open>h \<ge> 0\<close> that is \<open>max 0 (h - n)\<close> throughout, and after
  at least one damage the health is never negative. \<^verbatim>\<open>has_wall_between\<close> for the pair
  holds exactly while \<open>n < h\<close>, so it is false exactly when \<open>n \<ge> h\<close>; once \<open>n \<ge> h\<close>, more
  damage keeps the health at zero.
\<close>

theorem wall_damage_clamps:
  assumes "walls m (get_wall_key x1 y1 x2 y2) = Some (new_Wall h)"
  shows "health ((unit_damage ^^ n) (new_Wall h)) = (if n = 0 then h else max 0 (h - int n)) \<and>
         (0 \<le> h \<longrightarrow> health ((unit_damage ^^ n) (new_Wall h)) = max 0 (h - int n)) \<and>
         (0 < n \<longrightarrow> 0 \<le> health ((unit_damage ^^ n) (new_Wall h))) \<and>
         walls (((\<lambda>m. damage_wall m (get_wall_key x1 y1 x2 y2)) ^^ n) m) (get_wall_key x1 y1 x2 y2)
           = Some ((unit_damage ^^ n) (new_Wall h)) \<and>
         (has_wall_between (((\<lambda>m. damage_wall m (get_wall_key x1 y1 x2 y2)) ^^ n) m) x1 y1 x2 y2
            \<longleftrightarrow> int n < h) \<and>
         (h \<le> int n \<longrightarrow> health ((unit_damage ^^ Suc n) (new_Wall h)) = 0)"
proof -
  have 1: "health ((unit_damage ^^ k) (new_Wall h)) = (if k = 0 then h else max 0 (h - int k))"
    for k
    by (simp add: health_unit_damage_funpow new_Wall_def)
  note 2 = damage_wall_funpow [OF assms, of n]
  have 3: "has_wall_between (((\<lambda>m. damage_wall m (get_wall_key x1 y1 x2 y2)) ^^ n) m) x1 y1 x2 y2
            \<longleftrightarrow> int n < h"
    unfolding has_wall_between_def 2 using 1 [of n] by (auto simp: is_destroyed_def)
  have 4: "h \<le> int n \<longrightarrow> health ((unit_damage ^^ Suc n) (new_Wall h)) = 0"
    unfolding 1 by auto
  have 5: "0 \<le> h \<longrightarrow> health ((unit_damage ^^ n) (new_Wall h)) = max 0 (h - int n)"
    unfolding 1 by auto
  have 6: "0 < n \<longrightarrow> 0 \<le> health ((unit_damage ^^ n) (new_Wall h))"
    unfolding 1 by auto
  from 1 [of n] 2 3 4 5 6 show ?thesis by blast
qed

theorem wall_damage_clamps_witness:
  "walls corridor (get_wall_key 0 0 1 0) = Some (new_Wall 2) \<and>
   health ((unit_damage ^^ 0) (new_Wall 2)) = 2 \<and>
   health ((unit_damage ^^ 1) (new_Wall 2)) = 1 \<and>
   health ((unit_damage ^^ 2) (new_Wall 2)) = 0 \<and>
   health ((unit_damage ^^ 3) (new_Wall 2)) = 0 \<and>
   has_wall_between (((\<lambda>m. damage_wall m (get_wall_key 0 0 1 0)) ^^ 1) corridor) 0 0 1 0 \<and>
   \<not> has_wall_between (((\<lambda>m. damage_wall m (get_wall_key 0 0 1 0)) ^^ 2) corridor) 0 0 1 0"
proof -
  have b: "walls corridor (get_wall_key 0 0 1 0) = Some (new_Wall 2)"
    by (simp add: corridor_def get_wall_key_def)
  from wall_damage_clamps [OF b, of 0] wall_damage_clamps [OF b, of 1]
    wall_damage_clamps [OF b, of 2] b show ?thesis by simp
qed

section \<open>Action points of the primitives\<close>

text \<open>
  A small board for concrete evaluations: three cells in a row, an exit at \<open>(0, 0)\<close>,
  fire at \<open>(1, 0)\<close>. Firefighter 0 stands on the fire with four action points, on the cell
  of the unrevealed POI 0. Firefighter 1 stands on the exit with no action point left
  and carries POI 1.
\<close>

definition yard :: Model where
  "yard = \<lparr>width = 3, height = 1, wall_health = 2, rescued_pois = 0, explosion_count = 0,
     fire_grid = (\<lambda>y x. if x = 1 \<and> y = 0 then FIRE else CLEAR),
     cell_types = (\<lambda>y x. if x = 0 \<and> y = 0 then EXIT else NORMAL),
     walls = Map.empty, pois = [0, 1],
     poi_obj = (\<lambda>a. if a = 0 then new_POI 0 1 0 False
                     else (new_POI 1 2 0 False)\<lparr>is_revealed := True, carried_by := Some 1\<rparr>),
     agents = [0, 1],
     ff_obj = (\<lambda>f. if f = 0 then new_Firefighter 1 0
                    else (new_Firefighter 0 0)\<lparr>action_points := 0, carrying_poi := Some 1\<rparr>)\<rparr>"

lemmas yard_defs = yard_def new_POI_def new_Firefighter_def


lemma ap_spend [simp]:
  "action_points (ff_obj (spend_action_point m self) self) = action_points (ff_obj m self) - 1"
  by (simp add: spend_action_point_def)

lemma ff_obj_set_fire_state [simp]: "ff_obj (set_fire_state m x y s) = ff_obj m"
  by (simp add: set_fire_state_def)

lemma ff_obj_remove_poi [simp]: "ff_obj (remove_poi m a) = ff_obj m"
  by (simp add: remove_poi_def)

lemma move_to_action_points:
  "(action_points (ff_obj m self) \<le> 0 \<longrightarrow> move_to m self x y = (False, m)) \<and>
   (\<not> fst (move_to m self x y) \<longrightarrow> snd (move_to m self x y) = m) \<and>
   (fst (move_to m self x y) \<longrightarrow>
      0 < action_points (ff_obj m self) \<and>
      action_points (ff_obj (snd (move_to m self x y)) self) = action_points (ff_obj m self) - 1)"
  by (simp add: move_to_def Let_def)

lemma extinguish_fire_action_points:
  "(action_points (ff_obj m self) \<le> 0 \<longrightarrow> extinguish_fire m self = (False, m)) \<and>
   (\<not> fst (extinguish_fire m self) \<longrightarrow> snd (extinguish_fire m self) = m) \<and>
   (fst (extinguish_fire m self) \<longrightarrow>
      0 < action_points (ff_obj m self) \<and>
      action_points (ff_obj (snd (extinguish_fire m self)) self) = action_points (ff_obj m self) - 1)"
  by (simp add: extinguish_fire_def Let_def)

lemma pickup_poi_action_points:
  "(action_points (ff_obj m self) \<le> 0 \<longrightarrow> pickup_poi m self = (False, m)) \<and>
   (\<not> fst (pickup_poi m self) \<longrightarrow> snd (pickup_poi m self) = m) \<and>
   (fst (pickup_poi m self) \<longrightarrow>
      0 < action_points (ff_obj m self) \<and>
      action_points (ff_obj (snd (pickup_poi m self)) self) = action_points (ff_obj m self) - 1)"
  by (auto simp: pickup_poi_def Let_def carry_def reveal_def split: option.splits)

lemma drop_poi_at_exit_action_points:
  "action_points (ff_obj (snd (drop_poi_at_exit m self)) self) = action_points (ff_obj m self) \<and>
   (fst (drop_poi_at_exit m self) \<longleftrightarrow>
      carrying_poi (ff_obj m self) \<noteq> None \<and> is_exit m (ff_x (ff_obj m self)) (ff_y (ff_obj m self)))"
  by (auto simp: drop_poi_at_exit_def Let_def split: option.splits)


text \<open>
  C3, as the claim states it, fails for \<^verbatim>\<open>drop_poi_at_exit\<close>: called with no action point
  left it succeeds, changes the state and leaves the action points at zero.
\<close>

theorem drop_ignores_action_points_counterexample:
  "action_points (ff_obj yard 1) = 0 \<and> fst (drop_poi_at_exit yard 1) \<and>
   rescued_pois (snd (drop_poi_at_exit yard 1)) = rescued_pois yard + 1 \<and>
   is_rescued (poi_obj (snd (drop_poi_at_exit yard 1)) 1) \<and>
   action_points (ff_obj (snd (drop_poi_at_exit yard 1)) 1) = 0"
  by (simp add: drop_poi_at_exit_def is_exit_def yard_defs)

text \<open>
  C3, amended. \<^verbatim>\<open>move_to\<close>, \<^verbatim>\<open>extinguish_fire\<close> and \<^verbatim>\<open>pickup_poi\<close> fail without any
  state change when the action points are zero or less, change nothing whenever they
  fail, and take exactly one action point when they succeed. \<^verbatim>\<open>drop_poi_at_exit\<close>
  never reads or changes the action points: it succeeds exactly when the firefighter
  carries a POI and stands on an exit.
\<close>

theorem primitives_action_points:
  "(action_points (ff_obj m self) \<le> 0 \<longrightarrow>
      move_to m self x y = (False, m) \<and> extinguish_fire m self = (False, m) \<and>
      pickup_poi m self = (False, m)) \<and>
   (\<not> fst (move_to m self x y) \<longrightarrow> snd (move_to m self x y) = m) \<and>
   (\<not> fst (extinguish_fire m self) \<longrightarrow> snd (extinguish_fire m self) = m) \<and>
   (\<not> fst (pickup_poi m self) \<longrightarrow> snd (pickup_poi m self) = m) \<and>
   (fst (move_to m self x y) \<longrightarrow>
      action_points (ff_obj (snd (move_to m self x y)) self) = action_points (ff_obj m self) - 1) \<and>
   (fst (extinguish_fire m self) \<longrightarrow>
      action_points (ff_obj (snd (extinguish_fire m self)) self)
        = action_points (ff_obj m self) - 1) \<and>
   (fst (pickup_poi m self) \<longrightarrow>
      action_points (ff_obj (snd (pickup_poi m self)) self) = action_points (ff_obj m self) - 1) \<and>
   action_points (ff_obj (snd (drop_poi_at_exit m self)) self) = action_points (ff_obj m self) \<and>
   (fst (drop_poi_at_exit m self) \<longleftrightarrow>
      carrying_poi (ff_obj m self) \<noteq> None \<and>
      is_exit m (ff_x (ff_obj m self)) (ff_y (ff_obj m self)))"
  using move_to_action_points [of m self x y] extinguish_fire_action_points [of m self]
    pickup_poi_action_points [of m self] drop_poi_at_exit_action_points [of m self]
  by blast


theorem primitives_action_points_witness:
  "action_points (ff_obj yard 1) \<le> 0 \<and> move_to yard 1 1 0 = (False, yard) \<and>
   extinguish_fire yard 1 = (False, yard) \<and> pickup_poi yard 1 = (False, yard) \<and>
   fst (move_to yard 0 2 0) \<and> action_points (ff_obj (snd (move_to yard 0 2 0)) 0) = 3 \<and>
   fst (extinguish_fire yard 0) \<and> action_points (ff_obj (snd (extinguish_fire yard 0)) 0) = 3 \<and>
   fst (pickup_poi yard 0) \<and> action_points (ff_obj (snd (pickup_poi yard 0)) 0) = 3 \<and>
   fst (drop_poi_at_exit yard 1) \<and> \<not> fst (drop_poi_at_exit yard 0)"
proof -
  have a: "action_points (ff_obj yard 1) \<le> 0" "action_points (ff_obj yard 0) = 4"
    by (simp_all add: yard_defs)
  have b: "fst (move_to yard 0 2 0)"
    by (simp add: move_to_def yard_defs can_move_between_def has_wall_between_def)
  have c: "fst (extinguish_fire yard 0)"
    by (simp add: extinguish_fire_def get_fire_state_def yard_defs)
  have d: "fst (pickup_poi yard 0)"
    by (simp add: pickup_poi_def get_poi_at_def reveal_def yard_defs)
  have e: "carrying_poi (ff_obj yard 1) \<noteq> None"
    "is_exit yard (ff_x (ff_obj yard 1)) (ff_y (ff_obj yard 1))"
    "carrying_poi (ff_obj yard 0) = None"
    by (simp_all add: is_exit_def yard_defs)
  from primitives_action_points [of yard 1 1 0] primitives_action_points [of yard 0 2 0]
    a b c d e show ?thesis by simp
qed

section \<open>What traversal depends on\<close>


lemma can_move_between_cong:
  assumes "width m2 = width m1" "height m2 = height m1" "walls m2 = walls m1"
  shows "can_move_between m2 = can_move_between m1"
  using assms by (intro ext) (simp add: can_move_between_def has_wall_between_def)

lemma expand_cong:
  "can_move_between m2 = can_move_between m1 \<Longrightarrow>
   expand m2 goal p path ds queue visited = expand m1 goal p path ds queue visited"
proof (induction m1 goal p path ds queue visited rule: expand.induct)
  case (1 m goal x y path queue visited)
  show ?case by simp
next
  case (2 m goal x y path dx dy ds queue visited)
  then show ?case by (simp add: Let_def)
qed

lemma bfs_loop_cong:
  "can_move_between m2 = can_move_between m1 \<Longrightarrow>
   bfs_loop m2 goal queue visited = bfs_loop m1 goal queue visited"
proof (induction m1 goal queue visited rule: bfs_loop.induct)
  case (1 m goal visited)
  show ?case by simp
next
  case (2 m goal p path queue visited)
  show ?case
  proof (cases "expand m goal p path directions queue visited")
    case (Inl found)
    with "2.prems" show ?thesis by (simp add: expand_cong [of m2 m])
  next
    case (Inr r)
    obtain queue' visited' where r: "r = (queue', visited')" by (cases r)
    from "2.IH" [OF Inr r [symmetric] "2.prems"] Inr r "2.prems" show ?thesis
      by (simp add: expand_cong [of m2 m])
  qed
qed

lemma find_path_cong:
  assumes "can_move_between m2 = can_move_between m1"
  shows "find_path m2 = find_path m1"
  by (intro ext) (simp only: find_path_def bfs_loop_cong [OF assms])


text \<open>
  C10. \<^verbatim>\<open>can_move_between\<close> and \<^verbatim>\<open>find_path\<close> are the same in any two states with the
  same bounds and walls, and a move of a firefighter that has the same position and
  action points in both succeeds in one exactly when it succeeds in the other: the fire
  grid, the POIs and the other firefighters are never consulted. A move succeeds exactly
  when an action point is left and \<^verbatim>\<open>can_move_between\<close> accepts the pair, so it may
  lead onto a burning or an occupied cell.
\<close>

theorem traversal_depends_on_walls_only:
  assumes "width m2 = width m1" "height m2 = height m1" "walls m2 = walls m1"
    and "ff_x (ff_obj m2 self) = ff_x (ff_obj m1 self)"
    and "ff_y (ff_obj m2 self) = ff_y (ff_obj m1 self)"
    and "action_points (ff_obj m2 self) = action_points (ff_obj m1 self)"
  shows "can_move_between m2 = can_move_between m1 \<and>
         find_path m2 = find_path m1 \<and>
         fst (move_to m2 self x y) = fst (move_to m1 self x y) \<and>
         (fst (move_to m1 self x y) \<longleftrightarrow>
            0 < action_points (ff_obj m1 self) \<and>
            can_move_between m1 (ff_x (ff_obj m1 self)) (ff_y (ff_obj m1 self)) x y)"
proof -
  from assms(1-3) have c: "can_move_between m2 = can_move_between m1"
    by (rule can_move_between_cong)
  have m: "fst (move_to m self x y) \<longleftrightarrow>
      0 < action_points (ff_obj m self) \<and>
      can_move_between m (ff_x (ff_obj m self)) (ff_y (ff_obj m self)) x y" for m
    by (auto simp: move_to_def Let_def)
  from c find_path_cong [OF c] m [of m1] m [of m2] assms(4-6) show ?thesis by simp
qed


text \<open>
  The yard with every cell on fire, no POI registered and firefighter 1 moved to the
  cell \<open>(2, 0)\<close>.
\<close>

definition burning_yard :: Model where
  "burning_yard = yard\<lparr>fire_grid := (\<lambda>y x. FIRE), pois := [],
     ff_obj := (ff_obj yard)(1 := (ff_obj yard 1)\<lparr>ff_x := 2, ff_y := 0, ff_pos := (2, 0)\<rparr>)\<rparr>"

theorem traversal_depends_on_walls_only_witness:
  "width burning_yard = width yard \<and> height burning_yard = height yard \<and>
   walls burning_yard = walls yard \<and>
   fire_grid burning_yard 0 2 = FIRE \<and> ff_pos (ff_obj burning_yard 1) = (2, 0) \<and>
   fst (move_to burning_yard 0 2 0) \<and> fst (move_to yard 0 2 0) \<and>
   find_path burning_yard (0, 0) (2, 0) = find_path yard (0, 0) (2, 0)"
proof -
  have a: "width burning_yard = width yard" "height burning_yard = height yard"
    "walls burning_yard = walls yard"
    "ff_x (ff_obj burning_yard 0) = ff_x (ff_obj yard 0)"
    "ff_y (ff_obj burning_yard 0) = ff_y (ff_obj yard 0)"
    "action_points (ff_obj burning_yard 0) = action_points (ff_obj yard 0)"
    by (simp_all add: burning_yard_def)
  have b: "0 < action_points (ff_obj yard 0)"
    "can_move_between yard (ff_x (ff_obj yard 0)) (ff_y (ff_obj yard 0)) 2 0"
    by (simp_all add: yard_defs can_move_between_def has_wall_between_def)
  have c: "fire_grid burning_yard 0 2 = FIRE" "ff_pos (ff_obj burning_yard 1) = (2, 0)"
    by (simp_all add: burning_yard_def)
  from traversal_depends_on_walls_only [OF a, of 2 0] a(1-3) b c show ?thesis by simp
qed

section \<open>The carrying links between firefighters and POIs\<close>

subsection \<open>Frames\<close>

lemma fold_keeps:
  assumes "Inv st" and "\<And>c st. c \<in> set cs \<Longrightarrow> Inv st \<Longrightarrow> Inv (body c st)"
  shows "Inv (fold body cs st)"
  using assms by (induction cs arbitrary: st) auto

text \<open>The part of a state that the carrying links and the roles live in.\<close>

definition same_actors :: "Model \<Rightarrow> Model \<Rightarrow> bool" where
  "same_actors m m' \<longleftrightarrow>
     agents m' = agents m \<and> pois m' = pois m \<and> poi_obj m' = poi_obj m \<and> ff_obj m' = ff_obj m \<and>
     width m' = width m \<and> height m' = height m"

lemma same_actors_refl: "same_actors m m"
  by (simp add: same_actors_def)

lemma same_actors_trans: "same_actors a b \<Longrightarrow> same_actors b c \<Longrightarrow> same_actors a c"
  by (simp add: same_actors_def)

lemma same_actors_damage_wall: "same_actors m (damage_wall m k)"
  by (simp add: same_actors_def damage_wall_def split: option.splits)

lemma same_actors_trigger_explosion: "same_actors m (trigger_explosion m x y)"
proof -
  let ?m1 = "m\<lparr>explosion_count := explosion_count m + 1\<rparr>"
  have 1: "same_actors m ?m1" by (simp add: same_actors_def)
  show ?thesis
    unfolding trigger_explosion_def Let_def
    by (intro fold_keeps [where Inv = "same_actors m"] 1)
       (auto simp: same_actors_def damage_wall_def split: option.splits)
qed

lemma same_actors_check_cell:
  "same_actors m0 m \<Longrightarrow> same_actors m0 (fst (check_cell rnd y x (m, k)))"
  using same_actors_trigger_explosion [of m x y]
  by (auto simp: check_cell_def intro: same_actors_trans)

lemma same_actors_check_explosions: "same_actors m (fst (check_explosions m rnd k))"
proof -
  have row: "same_actors m (fst (fold (\<lambda>x. check_cell rnd y x) xs s))"
    if "same_actors m (fst s)" for y xs s
    using that
    by (intro fold_keeps [where Inv = "\<lambda>s. same_actors m (fst s)"])
       (auto intro: same_actors_check_cell)
  show ?thesis
    unfolding check_explosions_def
    by (intro fold_keeps [where Inv = "\<lambda>s. same_actors m (fst s)"])
       (auto simp: same_actors_refl intro: row)
qed

lemma same_actors_spread_fire: "same_actors m (fst (spread_fire m rnd k))"
  by (simp add: spread_fire_def same_actors_def split: prod.splits)


subsection \<open>The carrying links\<close>

definition carry_inv :: "Model \<Rightarrow> bool" where
  "carry_inv m \<longleftrightarrow>
     (\<forall>f\<in>set (agents m). \<forall>a. carrying_poi (ff_obj m f) = Some a \<longrightarrow>
        a \<in> set (pois m) \<and> carried_by (poi_obj m a) = Some f \<and> \<not> is_rescued (poi_obj m a)) \<and>
     (\<forall>a\<in>set (pois m). \<forall>f. carried_by (poi_obj m a) = Some f \<longrightarrow>
        f \<in> set (agents m) \<and> carrying_poi (ff_obj m f) = Some a)"

lemma carry_inv_links:
  assumes "set (agents m') = set (agents m)" "pois m' = pois m"
    and "\<And>a. carried_by (poi_obj m' a) = carried_by (poi_obj m a)"
    and "\<And>a. is_rescued (poi_obj m' a) = is_rescued (poi_obj m a)"
    and "\<And>f. carrying_poi (ff_obj m' f) = carrying_poi (ff_obj m f)"
  shows "carry_inv m' \<longleftrightarrow> carry_inv m"
  by (simp add: carry_inv_def assms)

lemma carry_inv_same_actors:
  assumes "same_actors m m'" "carry_inv m"
  shows "carry_inv m'"
proof -
  from assms(1) have "agents m' = agents m" "pois m' = pois m" "poi_obj m' = poi_obj m"
    "ff_obj m' = ff_obj m"
    by (simp_all add: same_actors_def)
  then have "carry_inv m' \<longleftrightarrow> carry_inv m"
    by (intro carry_inv_links) simp_all
  with assms(2) show ?thesis by simp
qed

lemma carry_inv_move_to: "carry_inv m \<Longrightarrow> carry_inv (snd (move_to m self x y))"
  by (subst carry_inv_links [of _ m]) (auto simp: move_to_def Let_def)

lemma carry_inv_spend: "carry_inv m \<Longrightarrow> carry_inv (spend_action_point m self)"
  by (subst carry_inv_links [of _ m]) (auto simp: spend_action_point_def)

lemma carry_inv_set_fire_state: "carry_inv m \<Longrightarrow> carry_inv (set_fire_state m x y s)"
  by (subst carry_inv_links [of _ m]) (auto simp: set_fire_state_def)

lemma carry_inv_extinguish_fire: "carry_inv m \<Longrightarrow> carry_inv (snd (extinguish_fire m self))"
  by (auto simp: extinguish_fire_def Let_def intro: carry_inv_spend carry_inv_set_fire_state)

lemma carry_inv_reset: "carry_inv m \<Longrightarrow> carry_inv (reset_action_points m self)"
  by (subst carry_inv_links [of _ m]) (auto simp: reset_action_points_def)

lemma carry_inv_set_role: "carry_inv m \<Longrightarrow> carry_inv (set_role m self r)"
  by (subst carry_inv_links [of _ m]) (auto simp: set_role_def)

lemma carry_inv_assign_role: "carry_inv m \<Longrightarrow> carry_inv (assign_role m self)"
  by (simp add: assign_role_def Let_def carry_inv_set_role)

lemma find_Some_set: "find P xs = Some x \<Longrightarrow> x \<in> set xs \<and> P x"
  by (induction xs) (auto split: if_splits)

lemma get_poi_at_Some:
  "get_poi_at m x y = Some a \<Longrightarrow>
   a \<in> set (pois m) \<and> \<not> is_rescued (poi_obj m a) \<and> carried_by (poi_obj m a) = None"
  unfolding get_poi_at_def by (drule find_Some_set) simp

lemma carry_invI:
  assumes "\<And>f a. f \<in> set (agents m) \<Longrightarrow> carrying_poi (ff_obj m f) = Some a \<Longrightarrow>
             a \<in> set (pois m) \<and> carried_by (poi_obj m a) = Some f \<and> \<not> is_rescued (poi_obj m a)"
    and "\<And>a f. a \<in> set (pois m) \<Longrightarrow> carried_by (poi_obj m a) = Some f \<Longrightarrow>
             f \<in> set (agents m) \<and> carrying_poi (ff_obj m f) = Some a"
  shows "carry_inv m"
  unfolding carry_inv_def using assms by blast

lemma carry_invD1:
  "carry_inv m \<Longrightarrow> f \<in> set (agents m) \<Longrightarrow> carrying_poi (ff_obj m f) = Some a \<Longrightarrow>
   a \<in> set (pois m) \<and> carried_by (poi_obj m a) = Some f \<and> \<not> is_rescued (poi_obj m a)"
  unfolding carry_inv_def by blast

lemma carry_invD2:
  "carry_inv m \<Longrightarrow> a \<in> set (pois m) \<Longrightarrow> carried_by (poi_obj m a) = Some f \<Longrightarrow>
   f \<in> set (agents m) \<and> carrying_poi (ff_obj m f) = Some a"
  unfolding carry_inv_def by blast

lemma carry_fields:
  "agents (carry m self a) = agents m"
  "pois (carry m self a) = pois m"
  "carrying_poi (ff_obj (carry m self a) f) = (if f = self then Some a else carrying_poi (ff_obj m f))"
  "carried_by (poi_obj (carry m self a) b) = (if b = a then Some self else carried_by (poi_obj m b))"
  "is_rescued (poi_obj (carry m self a) b) = is_rescued (poi_obj m b)"
  by (simp_all add: carry_def spend_action_point_def)

lemma carry_inv_carry:
  assumes inv: "carry_inv m" and self: "self \<in> set (agents m)"
    and free: "carrying_poi (ff_obj m self) = None"
    and a: "a \<in> set (pois m)" "\<not> is_rescued (poi_obj m a)" "carried_by (poi_obj m a) = None"
  shows "carry_inv (carry m self a)"
proof (rule carry_invI)
  fix f b
  assume f: "f \<in> set (agents (carry m self a))"
    and c: "carrying_poi (ff_obj (carry m self a) f) = Some b"
  show "b \<in> set (pois (carry m self a)) \<and> carried_by (poi_obj (carry m self a) b) = Some f \<and>
        \<not> is_rescued (poi_obj (carry m self a) b)"
  proof (cases "f = self")
    case True
    with c have "b = a" by (simp add: carry_fields)
    with True a show ?thesis by (simp add: carry_fields)
  next
    case False
    with f c have "f \<in> set (agents m)" "carrying_poi (ff_obj m f) = Some b"
      by (simp_all add: carry_fields)
    from carry_invD1 [OF inv this] have
      b: "b \<in> set (pois m)" "carried_by (poi_obj m b) = Some f" "\<not> is_rescued (poi_obj m b)"
      by simp_all
    with a(3) have "b \<noteq> a" by auto
    with b show ?thesis by (simp add: carry_fields)
  qed
next
  fix b f
  assume b: "b \<in> set (pois (carry m self a))"
    and c: "carried_by (poi_obj (carry m self a) b) = Some f"
  show "f \<in> set (agents (carry m self a)) \<and> carrying_poi (ff_obj (carry m self a) f) = Some b"
  proof (cases "b = a")
    case True
    with c have "f = self" by (simp add: carry_fields)
    with True self show ?thesis by (simp add: carry_fields)
  next
    case False
    with b c have "b \<in> set (pois m)" "carried_by (poi_obj m b) = Some f"
      by (simp_all add: carry_fields)
    from carry_invD2 [OF inv this] have
      f: "f \<in> set (agents m)" "carrying_poi (ff_obj m f) = Some b"
      by simp_all
    with free have "f \<noteq> self" by auto
    with f show ?thesis by (simp add: carry_fields)
  qed
qed

lemma reveal_fields:
  "agents (snd (reveal m a)) = agents m"
  "pois (snd (reveal m a)) = pois m"
  "ff_obj (snd (reveal m a)) = ff_obj m"
  "carried_by (poi_obj (snd (reveal m a)) b) = carried_by (poi_obj m b)"
  "is_rescued (poi_obj (snd (reveal m a)) b) = is_rescued (poi_obj m b)"
  by (simp_all add: reveal_def)

lemma carry_inv_reveal: "carry_inv m \<Longrightarrow> carry_inv (snd (reveal m a))"
  by (subst carry_inv_links [of _ m]) (simp_all add: reveal_fields)

lemma remove_poi_fields:
  "agents (remove_poi m a) = agents m"
  "ff_obj (remove_poi m a) = ff_obj m"
  "poi_obj (remove_poi m a) = poi_obj m"
  "pois (remove_poi m a) = remove1 a (pois m)"
  by (simp_all add: remove_poi_def remove1_idem)

lemma carry_inv_remove_poi:
  assumes inv: "carry_inv m" and a: "carried_by (poi_obj m a) = None"
  shows "carry_inv (remove_poi m a)"
proof (rule carry_invI)
  fix f b
  assume "f \<in> set (agents (remove_poi m a))"
    and "carrying_poi (ff_obj (remove_poi m a) f) = Some b"
  then have "f \<in> set (agents m)" "carrying_poi (ff_obj m f) = Some b"
    by (simp_all add: remove_poi_fields)
  from carry_invD1 [OF inv this] have
    b: "b \<in> set (pois m)" "carried_by (poi_obj m b) = Some f" "\<not> is_rescued (poi_obj m b)"
    by simp_all
  with a have "b \<noteq> a" by auto
  with b show "b \<in> set (pois (remove_poi m a)) \<and>
      carried_by (poi_obj (remove_poi m a) b) = Some f \<and> \<not> is_rescued (poi_obj (remove_poi m a) b)"
    by (simp add: remove_poi_fields)
next
  fix b f
  assume "b \<in> set (pois (remove_poi m a))"
    and c: "carried_by (poi_obj (remove_poi m a) b) = Some f"
  then have "b \<in> set (remove1 a (pois m))" by (simp add: remove_poi_fields)
  then have "b \<in> set (pois m)" by (metis notin_set_remove1)
  from carry_invD2 [OF inv this] c
  show "f \<in> set (agents (remove_poi m a)) \<and> carrying_poi (ff_obj (remove_poi m a) f) = Some b"
    by (simp add: remove_poi_fields)
qed

lemma carry_inv_pickup_poi:
  assumes "carry_inv m" "self \<in> set (agents m)"
  shows "carry_inv (snd (pickup_poi m self))"
proof (cases "get_poi_at m (ff_x (ff_obj m self)) (ff_y (ff_obj m self))")
  case None
  with assms(1) show ?thesis by (simp add: pickup_poi_def Let_def)
next
  case (Some a)
  note a = get_poi_at_Some [OF Some]
  show ?thesis
  proof (cases "action_points (ff_obj m self) \<le> 0 \<or> carrying_poi (ff_obj m self) \<noteq> None")
    case True
    with assms(1) show ?thesis by (auto simp: pickup_poi_def Let_def)
  next
    case False
    then have free: "carrying_poi (ff_obj m self) = None" by simp
    define m1 where "m1 = snd (reveal m a)"
    have 1: "carry_inv (carry m self a)"
      using assms a free by (intro carry_inv_carry) simp_all
    have 2: "carry_inv (carry m1 self a)"
      unfolding m1_def using assms a free
      by (intro carry_inv_carry carry_inv_reveal) (simp_all add: reveal_fields)
    have 3: "carry_inv (spend_action_point (remove_poi m1 a) self)"
      unfolding m1_def using assms(1) a
      by (intro carry_inv_spend carry_inv_remove_poi carry_inv_reveal) (simp_all add: reveal_fields)
    have r: "reveal m a = (\<not> is_false_alarm (poi_obj m a), m1)"
      by (simp add: reveal_def m1_def)
    have "snd (pickup_poi m self) =
        (if \<not> is_revealed (poi_obj m a)
         then (if is_false_alarm (poi_obj m a)
               then spend_action_point (remove_poi m1 a) self else carry m1 self a)
         else carry m self a)"
      using False Some a by (simp add: pickup_poi_def Let_def r)
    with 1 2 3 show ?thesis by simp
  qed
qed

lemma carry_inv_drop_poi_at_exit:
  assumes inv: "carry_inv m" and self: "self \<in> set (agents m)"
  shows "carry_inv (snd (drop_poi_at_exit m self))"
proof (cases "carrying_poi (ff_obj m self)")
  case None
  with inv show ?thesis by (simp add: drop_poi_at_exit_def)
next
  case (Some a)
  show ?thesis
  proof (cases "is_exit m (ff_x (ff_obj m self)) (ff_y (ff_obj m self))")
    case False
    with Some inv show ?thesis by (simp add: drop_poi_at_exit_def)
  next
    case True
    define m' where "m' = snd (drop_poi_at_exit m self)"
    from Some True have
      ag: "agents m' = agents m" and po: "pois m' = pois m"
      and ca: "\<And>f. carrying_poi (ff_obj m' f) = (if f = self then None else carrying_poi (ff_obj m f))"
      and cb: "\<And>b. carried_by (poi_obj m' b) = (if b = a then None else carried_by (poi_obj m b))"
      and re: "\<And>b. is_rescued (poi_obj m' b) = (if b = a then True else is_rescued (poi_obj m b))"
      by (simp_all add: m'_def drop_poi_at_exit_def Let_def)
    from carry_invD1 [OF inv self Some] have link: "carried_by (poi_obj m a) = Some self"
      by simp
    have "carry_inv m'"
    proof (rule carry_invI)
      fix f b
      assume "f \<in> set (agents m')" and c: "carrying_poi (ff_obj m' f) = Some b"
      then have f: "f \<in> set (agents m)" "f \<noteq> self" "carrying_poi (ff_obj m f) = Some b"
        by (simp_all add: ag ca split: if_splits)
      from carry_invD1 [OF inv f(1,3)] have
        b: "b \<in> set (pois m)" "carried_by (poi_obj m b) = Some f" "\<not> is_rescued (poi_obj m b)"
        by simp_all
      with link f(2) have "b \<noteq> a" by auto
      with b show "b \<in> set (pois m') \<and> carried_by (poi_obj m' b) = Some f \<and>
          \<not> is_rescued (poi_obj m' b)"
        by (simp add: po cb re)
    next
      fix b f
      assume "b \<in> set (pois m')" and c: "carried_by (poi_obj m' b) = Some f"
      then have b: "b \<in> set (pois m)" "b \<noteq> a" "carried_by (poi_obj m b) = Some f"
        by (simp_all add: po cb split: if_splits)
      from carry_invD2 [OF inv b(1,3)] have
        f: "f \<in> set (agents m)" "carrying_poi (ff_obj m f) = Some b"
        by simp_all
      with Some b(2) have "f \<noteq> self" by auto
      with f show "f \<in> set (agents m') \<and> carrying_poi (ff_obj m' f) = Some b"
        by (simp add: ag ca)
    qed
    then show ?thesis by (simp add: m'_def)
  qed
qed

lemma agents_primitives:
  "agents (snd (move_to m self x y)) = agents m"
  "agents (snd (extinguish_fire m self)) = agents m"
  "agents (snd (pickup_poi m self)) = agents m"
  "agents (snd (drop_poi_at_exit m self)) = agents m"
  "agents (reset_action_points m self) = agents m"
  "agents (assign_role m self) = agents m"
  by (auto simp: move_to_def extinguish_fire_def pickup_poi_def drop_poi_at_exit_def
      reset_action_points_def assign_role_def set_role_def spend_action_point_def
      set_fire_state_def carry_def reveal_def remove_poi_def Let_def
      split: option.splits prod.splits)

lemma agents_step_towards: "agents (snd (step_towards m self x y)) = agents m"
  by (simp add: step_towards_def Let_def agents_primitives)

lemma carry_inv_step_towards: "carry_inv m \<Longrightarrow> carry_inv (snd (step_towards m self x y))"
  by (simp add: step_towards_def Let_def carry_inv_move_to)

lemma carry_inv_rescue_behavior:
  assumes "carry_inv m" "self \<in> set (agents m)"
  shows "carry_inv (rescue_behavior m self) \<and> agents (rescue_behavior m self) = agents m"
proof -
  have drop: "carry_inv (snd (drop_poi_at_exit m1 self)) \<and>
      agents (snd (drop_poi_at_exit m1 self)) = agents m"
    if "m1 = snd (step_towards m self x y)" for m1 x y
    using that assms
    by (simp add: carry_inv_drop_poi_at_exit carry_inv_step_towards agents_step_towards
        agents_primitives)
  have go: "carry_inv (snd (step_towards m self x y)) \<and>
      agents (snd (step_towards m self x y)) = agents m" for x y
    using assms by (simp add: carry_inv_step_towards agents_step_towards)
  have pick: "carry_inv (snd (pickup_poi m self)) \<and> agents (snd (pickup_poi m self)) = agents m"
    using assms by (simp add: carry_inv_pickup_poi agents_primitives)
  show ?thesis
    unfolding rescue_behavior_def Let_def
    using assms(1) drop go pick
    by (auto split: list.splits prod.splits simp: split_beta)
qed

lemma carry_inv_firefighting_behavior:
  assumes "carry_inv m"
  shows "carry_inv (firefighting_behavior m self) \<and>
         agents (firefighting_behavior m self) = agents m"
  unfolding firefighting_behavior_def Let_def
  using assms
  by (auto split: list.splits
      simp: carry_inv_step_towards agents_step_towards carry_inv_extinguish_fire agents_primitives)

lemma carry_inv_agent_step:
  assumes "carry_inv m" "self \<in> set (agents m)"
  shows "carry_inv (agent_step m self) \<and> agents (agent_step m self) = agents m"
proof -
  let ?m2 = "assign_role (reset_action_points m self) self"
  from assms have "carry_inv ?m2" "self \<in> set (agents ?m2)" "agents ?m2 = agents m"
    by (simp_all add: carry_inv_assign_role carry_inv_reset agents_primitives)
  with carry_inv_rescue_behavior [of ?m2 self] carry_inv_firefighting_behavior [of ?m2 self]
  show ?thesis by (simp add: agent_step_def Let_def)
qed

lemma carry_inv_agent_steps:
  "carry_inv m \<Longrightarrow> set order \<subseteq> set (agents m) \<Longrightarrow>
   carry_inv (fold (\<lambda>self m. agent_step m self) order m) \<and>
   agents (fold (\<lambda>self m. agent_step m self) order m) = agents m"
proof (induction order arbitrary: m)
  case Nil
  then show ?case by simp
next
  case (Cons self order)
  from Cons.prems carry_inv_agent_step [of m self]
  have "carry_inv (agent_step m self)" "agents (agent_step m self) = agents m" by simp_all
  with Cons.IH [of "agent_step m self"] Cons.prems show ?case by simp
qed

lemma carry_inv_schedule_step:
  assumes "carry_inv m" "set order = set (agents m)"
  shows "carry_inv (schedule_step m order)"
proof -
  have "carry_inv (m\<lparr>agents := order\<rparr>)"
    using assms by (subst carry_inv_links [of _ m]) simp_all
  from carry_inv_agent_steps [OF this, of order] show ?thesis
    by (simp add: schedule_step_def)
qed

lemma carry_inv_model_step:
  assumes "carry_inv m" "set order = set (agents m)"
  shows "carry_inv (fst (model_step m order rnd k))"
proof -
  let ?m1 = "schedule_step m order"
  obtain m2 k1 where s: "spread_fire ?m1 rnd k = (m2, k1)" by (cases "spread_fire ?m1 rnd k")
  from same_actors_spread_fire [of ?m1 rnd k] s have "same_actors ?m1 m2" by simp
  from same_actors_trans [OF this same_actors_check_explosions [of m2 rnd k1]]
  have "same_actors ?m1 (fst (check_explosions m2 rnd k1))" .
  from carry_inv_same_actors [OF this carry_inv_schedule_step [OF assms]] s
  show ?thesis by (simp add: model_step_def Let_def)
qed

subsection \<open>The constructed state\<close>

definition unlinked :: "Model \<Rightarrow> bool" where
  "unlinked m \<longleftrightarrow>
     (\<forall>f. carrying_poi (ff_obj m f) = None) \<and> (\<forall>a. carried_by (poi_obj m a) = None)"

lemma unlinked_carry_inv: "unlinked m \<Longrightarrow> carry_inv m"
  by (simp add: unlinked_def carry_inv_def)

lemma unlinked_empty_model: "unlinked (empty_model w h wh)"
  by (simp add: unlinked_def empty_model_def blank_POI_def blank_Firefighter_def
      new_Firefighter_def)

lemma unlinked_setup_exits: "unlinked m \<Longrightarrow> unlinked (setup_exits m)"
  unfolding setup_exits_def
  by (rule fold_keeps) (auto simp: unlinked_def)

lemma unlinked_create_walls: "unlinked m \<Longrightarrow> unlinked (create_walls m)"
  unfolding create_walls_def Let_def
  by (intro fold_keeps [where Inv = unlinked]) (auto simp: unlinked_def)

lemma unlinked_place_firefighters:
  "unlinked m \<Longrightarrow> place_firefighters m ps = Inr m' \<Longrightarrow> unlinked m'"
proof (induction m ps rule: place_firefighters.induct)
  case (1 m)
  then show ?case by simp
next
  case (2 m x y ps)
  let ?m = "m\<lparr>agents := agents m @ [length (agents m)],
               ff_obj := (ff_obj m)(length (agents m) := new_Firefighter x y)\<rparr>"
  from "2.prems"(2) have ok: "0 \<le> x \<and> x < width m \<and> 0 \<le> y \<and> y < height m"
    and r: "place_firefighters ?m ps = Inr m'"
    by (auto split: if_splits)
  from "2.prems"(1) have "unlinked ?m"
    by (simp add: unlinked_def new_Firefighter_def)
  with "2.IH" ok r show ?case by simp
qed

lemma unlinked_place_initial_fires: "unlinked m \<Longrightarrow> unlinked (place_initial_fires m)"
  unfolding place_initial_fires_def
  by (rule fold_keeps) (auto simp: unlinked_def)

lemma unlinked_add_pois: "unlinked m \<Longrightarrow> unlinked (add_pois m ps rnd)"
  unfolding add_pois_def
  by (rule fold_keeps) (auto simp: unlinked_def new_POI_def)

lemma unlinked_place_pois:
  "unlinked m \<Longrightarrow> place_pois m n sample rnd = Inr m' \<Longrightarrow> unlinked m'"
  by (auto simp: place_pois_def Let_def unlinked_add_pois split: if_splits)

lemma unlinked_init_model:
  assumes "init_model w h nf np wh sample rnd = Inr m"
  shows "unlinked m"
proof -
  let ?m1 = "create_walls (setup_exits (empty_model w h wh))"
  have 1: "unlinked ?m1"
    by (intro unlinked_create_walls unlinked_setup_exits unlinked_empty_model)
  from assms obtain m2 where
    2: "place_firefighters ?m1 (take (nat (min nf 5)) start_positions) = Inr m2"
    and 3: "place_pois (place_initial_fires m2) np sample rnd = Inr m"
    by (auto simp: init_model_def Let_def split: if_splits sum.splits)
  from unlinked_place_firefighters [OF 1 2] have "unlinked (place_initial_fires m2)"
    by (rule unlinked_place_initial_fires)
  from unlinked_place_pois [OF this 3] show ?thesis .
qed

subsection \<open>Reachable states\<close>

text \<open>
  The states of a simulation: what the constructor returns, and from there the states
  after a step of the simulation (with any activation order and any draws) or after a
  call of a primitive on a firefighter of the scheduler.
\<close>

inductive reachable_state :: "Model \<Rightarrow> bool" where
  constructed: "init_model w h nf np wh sample rnd = Inr m \<Longrightarrow> reachable_state m"
| stepped: "reachable_state m \<Longrightarrow> set order = set (agents m) \<Longrightarrow>
     reachable_state (fst (model_step m order rnd k))"
| moved: "reachable_state m \<Longrightarrow> self \<in> set (agents m) \<Longrightarrow>
     reachable_state (snd (move_to m self x y))"
| extinguished: "reachable_state m \<Longrightarrow> self \<in> set (agents m) \<Longrightarrow>
     reachable_state (snd (extinguish_fire m self))"
| picked_up: "reachable_state m \<Longrightarrow> self \<in> set (agents m) \<Longrightarrow>
     reachable_state (snd (pickup_poi m self))"
| dropped: "reachable_state m \<Longrightarrow> self \<in> set (agents m) \<Longrightarrow>
     reachable_state (snd (drop_poi_at_exit m self))"

lemma reachable_carry_inv: "reachable_state m \<Longrightarrow> carry_inv m"
proof (induction rule: reachable_state.induct)
  case (constructed w h nf np wh sample rnd m)
  then show ?case by (intro unlinked_carry_inv unlinked_init_model)
next
  case (stepped m order rnd k)
  then show ?case by (intro carry_inv_model_step)
next
  case (moved m self x y)
  then show ?case by (intro carry_inv_move_to)
next
  case (extinguished m self)
  then show ?case by (intro carry_inv_extinguish_fire)
next
  case (picked_up m self)
  then show ?case by (intro carry_inv_pickup_poi)
next
  case (dropped m self)
  then show ?case by (intro carry_inv_drop_poi_at_exit)
qed

text \<open>The three states of a registered POI.\<close>

definition not_picked_up :: "Model \<Rightarrow> nat \<Rightarrow> bool" where
  "not_picked_up m a \<longleftrightarrow> \<not> is_rescued (poi_obj m a) \<and> carried_by (poi_obj m a) = None \<and>
     (\<forall>f\<in>set (agents m). carrying_poi (ff_obj m f) \<noteq> Some a)"

definition carried_by_one :: "Model \<Rightarrow> nat \<Rightarrow> bool" where
  "carried_by_one m a \<longleftrightarrow>
     (\<exists>f\<in>set (agents m). carried_by (poi_obj m a) = Some f \<and>
        (\<forall>g\<in>set (agents m). carrying_poi (ff_obj m g) = Some a \<longleftrightarrow> g = f))"

definition rescued :: "Model \<Rightarrow> nat \<Rightarrow> bool" where
  "rescued m a \<longleftrightarrow> is_rescued (poi_obj m a) \<and> carried_by (poi_obj m a) = None \<and>
     (\<forall>f\<in>set (agents m). carrying_poi (ff_obj m f) \<noteq> Some a)"

definition exactly_one :: "bool \<Rightarrow> bool \<Rightarrow> bool \<Rightarrow> bool" where
  "exactly_one a b c \<longleftrightarrow> (a \<and> \<not> b \<and> \<not> c) \<or> (\<not> a \<and> b \<and> \<not> c) \<or> (\<not> a \<and> \<not> b \<and> c)"

lemma carry_inv_states:
  assumes inv: "carry_inv m" and a: "a \<in> set (pois m)"
  shows "exactly_one (not_picked_up m a) (carried_by_one m a) (rescued m a)"
proof (cases "carried_by (poi_obj m a)")
  case None
  have "carrying_poi (ff_obj m f) \<noteq> Some a" if "f \<in> set (agents m)" for f
    using carry_invD1 [OF inv that, of a] None by auto
  with None show ?thesis
    by (auto simp: exactly_one_def not_picked_up_def carried_by_one_def rescued_def)
next
  case (Some f)
  from carry_invD2 [OF inv a Some] have f: "f \<in> set (agents m)"
    "carrying_poi (ff_obj m f) = Some a" by simp_all
  from carry_invD1 [OF inv f] have nr: "\<not> is_rescued (poi_obj m a)" by simp
  have "g = f" if "g \<in> set (agents m)" "carrying_poi (ff_obj m g) = Some a" for g
    using carry_invD1 [OF inv that] Some by simp
  with f have "carried_by_one m a"
    unfolding carried_by_one_def using Some by blast
  with Some nr show ?thesis
    by (simp add: exactly_one_def not_picked_up_def rescued_def)
qed

text \<open>
  C8. In every reachable state a firefighter that carries a POI is the one the POI
  names as its carrier, and no other firefighter carries it (a firefighter carries at
  most one POI: the attribute holds one reference or none); every registered POI is in
  exactly one of the states not picked up, carried by one firefighter, rescued, and a
  rescued POI names no carrier; and \<^verbatim>\<open>pickup_poi\<close>, with the removal of a false alarm
  inside it, and \<^verbatim>\<open>drop_poi_at_exit\<close> lead to states where all this holds again.
\<close>

theorem carrying_links_invariant:
  assumes "reachable_state m"
  shows "(\<forall>f\<in>set (agents m). \<forall>a. carrying_poi (ff_obj m f) = Some a \<longrightarrow>
            a \<in> set (pois m) \<and> carried_by (poi_obj m a) = Some f \<and>
            (\<forall>g\<in>set (agents m). carrying_poi (ff_obj m g) = Some a \<longrightarrow> g = f)) \<and>
         (\<forall>a\<in>set (pois m).
            exactly_one (not_picked_up m a) (carried_by_one m a) (rescued m a) \<and>
            (is_rescued (poi_obj m a) \<longrightarrow> carried_by (poi_obj m a) = None)) \<and>
         (\<forall>self\<in>set (agents m).
            carry_inv (snd (pickup_poi m self)) \<and> reachable_state (snd (pickup_poi m self)) \<and>
            carry_inv (snd (drop_poi_at_exit m self)) \<and>
            reachable_state (snd (drop_poi_at_exit m self)))"
proof -
  from assms have inv: "carry_inv m" by (rule reachable_carry_inv)
  have 1: "a \<in> set (pois m) \<and> carried_by (poi_obj m a) = Some f \<and>
      (\<forall>g\<in>set (agents m). carrying_poi (ff_obj m g) = Some a \<longrightarrow> g = f)"
    if f: "f \<in> set (agents m)" "carrying_poi (ff_obj m f) = Some a" for f a
  proof -
    from carry_invD1 [OF inv f] have a: "a \<in> set (pois m)" "carried_by (poi_obj m a) = Some f"
      by simp_all
    have "g = f" if "g \<in> set (agents m)" "carrying_poi (ff_obj m g) = Some a" for g
      using carry_invD1 [OF inv that] a by simp
    with a show ?thesis by blast
  qed
  have 2: "exactly_one (not_picked_up m a) (carried_by_one m a) (rescued m a) \<and>
      (is_rescued (poi_obj m a) \<longrightarrow> carried_by (poi_obj m a) = None)"
    if a: "a \<in> set (pois m)" for a
  proof -
    have "carried_by (poi_obj m a) = None" if r: "is_rescued (poi_obj m a)"
    proof (cases "carried_by (poi_obj m a)")
      case None
      then show ?thesis .
    next
      case (Some f)
      from carry_invD2 [OF inv a Some] have "f \<in> set (agents m)"
        "carrying_poi (ff_obj m f) = Some a" by simp_all
      from carry_invD1 [OF inv this] r show ?thesis by simp
    qed
    with carry_inv_states [OF inv a] show ?thesis by simp
  qed
  have 3: "carry_inv (snd (pickup_poi m self)) \<and> reachable_state (snd (pickup_poi m self)) \<and>
      carry_inv (snd (drop_poi_at_exit m self)) \<and>
      reachable_state (snd (drop_poi_at_exit m self))"
    if "self \<in> set (agents m)" for self
    using that assms inv
    by (simp add: carry_inv_pickup_poi carry_inv_drop_poi_at_exit reachable_state.picked_up
        reachable_state.dropped)
  from 1 2 3 show ?thesis by blast
qed

section \<open>Role assignment\<close>

subsection \<open>The walls of a constructed state\<close>

definition initial_walls :: "int \<Rightarrow> int \<Rightarrow> int \<Rightarrow> wall_key \<rightharpoonup> Wall" where
  "initial_walls w h wh = walls (create_walls (setup_exits (empty_model w h wh)))"

definition only_walls :: "Model \<Rightarrow> Model \<Rightarrow> bool" where
  "only_walls m m' \<longleftrightarrow> m' = m\<lparr>walls := walls m'\<rparr>"

lemma only_walls_update: "only_walls m m' \<Longrightarrow> only_walls m (m'\<lparr>walls := W\<rparr>)"
proof -
  assume "only_walls m m'"
  then have "m' = m\<lparr>walls := walls m'\<rparr>" by (simp add: only_walls_def)
  then have "m'\<lparr>walls := W\<rparr> = m\<lparr>walls := walls m'\<rparr>\<lparr>walls := W\<rparr>" by simp
  then show ?thesis by (simp add: only_walls_def)
qed

lemma only_walls_create_walls: "only_walls m (create_walls m)"
proof -
  have 0: "only_walls m m" by (simp add: only_walls_def)
  show ?thesis
    unfolding create_walls_def Let_def
    by (intro fold_keeps [where Inv = "only_walls m"] 0)
       (auto simp: only_walls_update)
qed

lemma create_walls_frame: "create_walls m = m\<lparr>walls := walls (create_walls m)\<rparr>"
  using only_walls_create_walls [of m] by (simp add: only_walls_def)

definition uniform_walls :: "Model \<Rightarrow> bool" where
  "uniform_walls m \<longleftrightarrow> (\<forall>k wl. walls m k = Some wl \<longrightarrow> health wl = wall_health m)"

lemma uniform_walls_create_walls: "uniform_walls m \<Longrightarrow> uniform_walls (create_walls m)"
  unfolding create_walls_def Let_def
  by (intro fold_keeps [where Inv = uniform_walls])
     (auto simp: uniform_walls_def new_Wall_def simp del: split_paired_All split: if_splits)

lemma wall_health_setup_exits: "wall_health (setup_exits m) = wall_health m"
  unfolding setup_exits_def
  by (rule fold_keeps [where Inv = "\<lambda>m'. wall_health m' = wall_health m"]) auto

lemma walls_setup_exits: "walls (setup_exits m) = walls m"
  unfolding setup_exits_def
  by (rule fold_keeps [where Inv = "\<lambda>m'. walls m' = walls m"]) auto

lemma wall_health_create_walls: "wall_health (create_walls m) = wall_health m"
  by (subst create_walls_frame) simp

lemma initial_walls_health: "initial_walls w h wh k = Some wl \<Longrightarrow> health wl = wh"
proof -
  let ?m = "setup_exits (empty_model w h wh)"
  have "uniform_walls ?m"
    by (simp add: uniform_walls_def walls_setup_exits) (simp add: empty_model_def)
  from uniform_walls_create_walls [OF this]
  have "uniform_walls (create_walls ?m)" .
  moreover have "wall_health (create_walls ?m) = wh"
    by (simp add: wall_health_create_walls wall_health_setup_exits) (simp add: empty_model_def)
  moreover assume "initial_walls w h wh k = Some wl"
  ultimately show ?thesis
    unfolding uniform_walls_def initial_walls_def by metis
qed

text \<open>Where no wall is intact, traversal is decided by bounds and adjacency alone.\<close>

definition no_intact_wall :: "Model \<Rightarrow> bool" where
  "no_intact_wall m \<longleftrightarrow> (\<forall>k wl. walls m k = Some wl \<longrightarrow> health wl \<le> 0)"

lemma no_intact_wall_initial: "wh \<le> 0 \<Longrightarrow> walls m = initial_walls w h wh \<Longrightarrow> no_intact_wall m"
  unfolding no_intact_wall_def using initial_walls_health by metis

lemma no_intact_wall_can_move:
  assumes "no_intact_wall m"
  shows "can_move_between m = can_move_between (empty_model (width m) (height m) 0)"
proof -
  have "\<not> has_wall_between m x1 y1 x2 y2" for x1 y1 x2 y2
  proof (cases "walls m (get_wall_key x1 y1 x2 y2)")
    case None
    then show ?thesis by (simp add: has_wall_between_def)
  next
    case (Some wl)
    with assms have "health wl \<le> 0" unfolding no_intact_wall_def by metis
    with Some show ?thesis by (simp add: has_wall_between_def is_destroyed_def)
  qed
  moreover have "\<not> has_wall_between (empty_model w h 0) x1 y1 x2 y2" for w h x1 y1 x2 y2
    by (simp add: has_wall_between_def empty_model_def)
  ultimately show ?thesis
    by (intro ext) (simp add: can_move_between_def, simp add: empty_model_def)
qed

lemma no_intact_wall_find_path:
  "no_intact_wall m \<Longrightarrow> find_path m = find_path (empty_model (width m) (height m) 0)"
  by (intro find_path_cong no_intact_wall_can_move)

subsection \<open>Scores\<close>

definition active_pois :: "Model \<Rightarrow> nat list" where
  "active_pois m = filter (\<lambda>poi. \<not> is_rescued (poi_obj m poi)) (pois m)"

definition poi_path :: "Model \<Rightarrow> nat \<Rightarrow> nat \<Rightarrow> pos list" where
  "poi_path m f a = get_path_to m f (poi_x (poi_obj m a)) (poi_y (poi_obj m a))"

definition path_lengths :: "Model \<Rightarrow> nat list \<Rightarrow> nat \<Rightarrow> nat set" where
  "path_lengths m ps f = (\<lambda>a. length (poi_path m f a)) ` {a \<in> set ps. poi_path m f a \<noteq> []}"

definition least_length :: "nat set \<Rightarrow> enat" where
  "least_length L = (if L = {} then \<infinity> else enat (Min L))"

lemma least_length_insert:
  "finite L \<Longrightarrow> least_length (insert n L) = min (enat n) (least_length L)"
  by (auto simp: least_length_def min_def)

lemma fold_min_least_length:
  "fold (\<lambda>a d. if poi_path m f a \<noteq> [] then min d (enat (length (poi_path m f a))) else d) ps d0
   = min d0 (least_length (path_lengths m ps f))"
proof (induction ps arbitrary: d0)
  case Nil
  show ?case by (simp add: path_lengths_def least_length_def)
next
  case (Cons a ps)
  have fin: "finite (path_lengths m ps f)" by (simp add: path_lengths_def)
  show ?case
  proof (cases "poi_path m f a \<noteq> []")
    case True
    then have "path_lengths m (a # ps) f = insert (length (poi_path m f a)) (path_lengths m ps f)"
      by (auto simp: path_lengths_def)
    with True fin show ?thesis
      by (simp add: Cons.IH least_length_insert min.assoc)
  next
    case False
    then have "path_lengths m (a # ps) f = path_lengths m ps f"
      by (auto simp: path_lengths_def)
    with False show ?thesis by (simp add: Cons.IH)
  qed
qed

lemma ff_min_dist_least: "ff_min_dist m ps f = least_length (path_lengths m ps f)"
  unfolding ff_min_dist_def Let_def poi_path_def [symmetric]
  by (simp add: fold_min_least_length)

subsection \<open>Ranking\<close>

lemma insort_key_pairs:
  "insort_key snd (f, s f) (map (\<lambda>g. (g, s g)) xs) = map (\<lambda>g. (g, s g)) (insort_key s f xs)"
  by (induction xs) auto

lemma sort_key_pairs:
  "sort_key snd (map (\<lambda>g. (g, s g)) xs) = map (\<lambda>g. (g, s g)) (sort_key s xs)"
  by (induction xs) (simp_all add: insort_key_pairs)

lemma top_3_ranking:
  "map fst (take 3 (sort_key snd (map (\<lambda>g. (g, s g)) xs))) = take 3 (sort_key s xs)"
  by (simp add: sort_key_pairs take_map [symmetric] comp_def)

definition score :: "Model \<Rightarrow> nat \<Rightarrow> enat" where
  "score m f = least_length (path_lengths m (active_pois m) f)"

definition ranking :: "Model \<Rightarrow> nat list" where
  "ranking m = sort_key (score m) (agents m)"

lemma assign_role_ranking:
  "assign_role m self =
   set_role m self (if active_pois m \<noteq> [] \<and> self \<in> set (take 3 (ranking m))
                    then ''rescuer'' else ''fire_fighter'')"
proof -
  have "(\<lambda>ff. (ff, ff_min_dist m (active_pois m) ff)) = (\<lambda>g. (g, score m g))"
    by (simp add: score_def ff_min_dist_least)
  then show ?thesis
    unfolding assign_role_def Let_def active_pois_def [symmetric]
    by (simp add: top_3_ranking ranking_def)
qed

lemma role_set_role: "role (ff_obj (set_role m self r) f) = (if f = self then r else role (ff_obj m f))"
  by (simp add: set_role_def)

subsection \<open>A constructed house without intact walls\<close>

text \<open>
  The board that the constructor builds for width 10, height 8, five firefighters and
  wall health 0, with the registry \<open>ps\<close> of POIs, the POI store \<open>pobj\<close> and the
  firefighter store \<open>crew\<close>.
\<close>

definition house :: "nat list \<Rightarrow> (nat \<Rightarrow> POI) \<Rightarrow> (nat \<Rightarrow> Firefighter) \<Rightarrow> Model" where
  "house ps pobj crew = \<lparr>width = 10, height = 8, wall_health = 0, rescued_pois = 0,
     explosion_count = 0,
     fire_grid = (\<lambda>y x. CLEAR)
       (3 := (\<lambda>x. CLEAR)(3 := FIRE), 4 := (\<lambda>x. CLEAR)(6 := FIRE), 6 := (\<lambda>x. CLEAR)(4 := FIRE)),
     cell_types = (\<lambda>y x. NORMAL)
       (3 := (\<lambda>x. NORMAL)(0 := EXIT, 9 := EXIT, 3 := HOTSPOT),
        4 := (\<lambda>x. NORMAL)(0 := EXIT, 9 := EXIT, 6 := HOTSPOT),
        6 := (\<lambda>x. NORMAL)(4 := HOTSPOT)),
     walls = initial_walls 10 8 0, pois = ps, poi_obj = pobj,
     agents = [0, 1, 2, 3, 4], ff_obj = crew\<rparr>"

definition crew0 :: "nat \<Rightarrow> Firefighter" where
  "crew0 = (\<lambda>a. blank_Firefighter)
     (0 := new_Firefighter 1 3, 1 := new_Firefighter 1 4, 2 := new_Firefighter 8 3,
      3 := new_Firefighter 8 4, 4 := new_Firefighter 4 0)"

definition half_draws :: draws where
  "half_draws k = 1 / 2"

lemma create_walls_initial:
  "create_walls (setup_exits (empty_model w h wh)) =
   (setup_exits (empty_model w h wh))\<lparr>walls := initial_walls w h wh\<rparr>"
  unfolding initial_walls_def by (rule create_walls_frame)

lemma house_constructed:
  assumes "0 \<le> np"
  shows "\<exists>n. init_model 10 8 5 np 0 sample rnd =
     Inr (add_pois (house [] (\<lambda>a. blank_POI) crew0)
            (sample (available_positions (house [] (\<lambda>a. blank_POI) crew0)) n) rnd)"
proof -
  have 1: "create_walls (setup_exits (empty_model 10 8 0)) =
      \<lparr>width = 10, height = 8, wall_health = 0, rescued_pois = 0,
        explosion_count = 0, fire_grid = \<lambda>y x. CLEAR,
        cell_types = (\<lambda>y x. NORMAL)
          (3 := (\<lambda>x. NORMAL)(0 := EXIT, 9 := EXIT),
           4 := (\<lambda>x. NORMAL)(0 := EXIT, 9 := EXIT)),
        walls = initial_walls 10 8 0, pois = [], poi_obj = \<lambda>a. blank_POI, agents = [],
        ff_obj = \<lambda>a. blank_Firefighter\<rparr>" (is "_ = ?b1")
    unfolding create_walls_initial by (simp add: setup_exits_def empty_model_def)
  have 2: "place_firefighters ?b1 (take (nat (min 5 5)) start_positions) =
      Inr (?b1\<lparr>agents := [0, 1, 2, 3, 4], ff_obj := crew0\<rparr>)" (is "_ = Inr ?b2")
    by (simp add: start_positions_def crew0_def eval_nat_numeral)
  have 3: "place_initial_fires ?b2 = house [] (\<lambda>a. blank_POI) crew0"
    by (simp add: place_initial_fires_def grid_set_def house_def)
  let ?h = "house [] (\<lambda>a. blank_POI) crew0"
  from assms have "\<not> min np (int (length (available_positions ?h))) < 0"
    by simp
  then have 4: "place_pois ?h np sample rnd =
      Inr (add_pois ?h (sample (available_positions ?h)
             (nat (min np (int (length (available_positions ?h)))))) rnd)"
    unfolding place_pois_def Let_def by simp
  have "init_model 10 8 5 np 0 sample rnd =
      Inr (add_pois ?h (sample (available_positions ?h)
             (nat (min np (int (length (available_positions ?h)))))) rnd)"
    unfolding init_model_def Let_def 1 2 sum.case 3 4 by simp
  then show ?thesis by blast
qed

abbreviation "open_board \<equiv> empty_model 10 8 0"

lemma house_no_intact_wall: "no_intact_wall (house ps pobj crew)"
  by (rule no_intact_wall_initial [of 0 _ 10 8]) (simp_all add: house_def)

lemma house_find_path: "find_path (house ps pobj crew) = find_path open_board"
  using no_intact_wall_find_path [OF house_no_intact_wall, of ps pobj crew]
  by (simp add: house_def)

lemma house_can_move:
  "can_move_between (house ps pobj crew) x1 y1 x2 y2 \<longleftrightarrow>
   0 \<le> x2 \<and> x2 < 10 \<and> 0 \<le> y2 \<and> y2 < 8 \<and> \<bar>x1 - x2\<bar> + \<bar>y1 - y2\<bar> = 1"
proof -
  have "width (house ps pobj crew) = 10" "height (house ps pobj crew) = 8"
    by (simp_all add: house_def)
  with no_intact_wall_can_move [OF house_no_intact_wall, of ps pobj crew]
  have "can_move_between (house ps pobj crew) = can_move_between open_board" by simp
  then show ?thesis
    by (auto simp: can_move_between_def has_wall_between_def empty_model_def)
qed

lemma cells_10_8:
  "width m = 10 \<Longrightarrow> height m = 8 \<Longrightarrow>
   cells m = concat (map (\<lambda>y. map (\<lambda>x. (x, y)) [0, 1, 2, 3, 4, 5, 6, 7, 8, 9])
                      [0, 1, 2, 3, 4, 5, 6, 7])"
  by (simp add: cells_def py_range_def upto.simps)

lemma house_cells:
  "get_cells_with_fire (house ps pobj crew) = [(3, 3), (6, 4), (4, 6)]"
  "get_cells_with_smoke (house ps pobj crew) = []"
proof -
  have c: "cells (house ps pobj crew) =
      concat (map (\<lambda>y. map (\<lambda>x. (x, y)) [0, 1, 2, 3, 4, 5, 6, 7, 8, 9]) [0, 1, 2, 3, 4, 5, 6, 7])"
    by (rule cells_10_8) (simp_all add: house_def)
  show "get_cells_with_fire (house ps pobj crew) = [(3, 3), (6, 4), (4, 6)]"
    unfolding get_cells_with_fire_def c by (simp add: house_def)
  show "get_cells_with_smoke (house ps pobj crew) = []"
    unfolding get_cells_with_smoke_def c by (simp add: house_def)
qed

lemma house_fields:
  "ff_obj (house ps pobj crew) = crew"
  "agents (house ps pobj crew) = [0, 1, 2, 3, 4]"
  "pois (house ps pobj crew) = ps"
  "poi_obj (house ps pobj crew) = pobj"
  "(house ps pobj crew)\<lparr>ff_obj := crew'\<rparr> = house ps pobj crew'"
  "(house ps pobj crew)\<lparr>poi_obj := pobj'\<rparr> = house ps pobj' crew"
  "(house ps pobj crew)\<lparr>pois := ps'\<rparr> = house ps' pobj crew"
  "(house ps pobj crew)\<lparr>agents := [0, 1, 2, 3, 4]\<rparr> = house ps pobj crew"
  by (simp_all add: house_def)

lemmas house_simps = house_fields house_find_path house_can_move house_cells

lemmas policy_defs = agent_step_def reset_action_points_def assign_role_def ff_min_dist_def
  get_path_to_def set_role_def firefighting_behavior_def rescue_behavior_def step_towards_def
  move_to_def py_min_key_def manhattan_def Let_def new_Firefighter_def new_POI_def

lemma same_actors_model_step:
  "same_actors (schedule_step m order) (fst (model_step m order rnd k))"
proof -
  let ?m1 = "schedule_step m order"
  obtain m2 k1 where s: "spread_fire ?m1 rnd k = (m2, k1)" by (cases "spread_fire ?m1 rnd k")
  from same_actors_spread_fire [of ?m1 rnd k] s have "same_actors ?m1 m2" by simp
  from same_actors_trans [OF this same_actors_check_explosions [of m2 rnd k1]] s
  show ?thesis by (simp add: model_step_def Let_def)
qed

subsection \<open>A step after which two firefighters are rescuers\<close>

definition lone_sample :: "pos list \<Rightarrow> nat \<Rightarrow> pos list" where
  "lone_sample xs n = [(5, 5)]"

definition lone_poi :: "nat \<Rightarrow> POI" where
  "lone_poi = (\<lambda>a. blank_POI)(0 := new_POI 0 5 5 False)"

lemma lone_constructed:
  "init_model 10 8 5 1 0 lone_sample half_draws = Inr (house [0] lone_poi crew0)"
proof -
  from house_constructed [of 1 lone_sample half_draws] obtain n where
    "init_model 10 8 5 1 0 lone_sample half_draws =
       Inr (add_pois (house [] (\<lambda>a. blank_POI) crew0)
              (lone_sample (available_positions (house [] (\<lambda>a. blank_POI) crew0)) n) half_draws)"
    by auto
  then show ?thesis
    by (simp add: lone_sample_def add_pois_def house_fields half_draws_def lone_poi_def)
qed

lemma lone_paths:
  "find_path open_board (1, 3) (5, 5) = [(1, 3), (1, 4), (1, 5), (2, 5), (3, 5), (4, 5), (5, 5)]"
  "find_path open_board (1, 4) (5, 5) = [(1, 4), (1, 5), (2, 5), (3, 5), (4, 5), (5, 5)]"
  "find_path open_board (8, 3) (5, 5) = [(8, 3), (8, 4), (8, 5), (7, 5), (6, 5), (5, 5)]"
  "find_path open_board (8, 4) (5, 5) = [(8, 4), (8, 5), (7, 5), (6, 5), (5, 5)]"
  "find_path open_board (4, 0) (5, 5) = [(4, 0), (4, 1), (4, 2), (4, 3), (4, 4), (4, 5), (5, 5)]"
  "find_path open_board (2, 3) (5, 5) = [(2, 3), (2, 4), (2, 5), (3, 5), (4, 5), (5, 5)]"
  "find_path open_board (1, 5) (5, 5) = [(1, 5), (2, 5), (3, 5), (4, 5), (5, 5)]"
  "find_path open_board (8, 5) (5, 5) = [(8, 5), (7, 5), (6, 5), (5, 5)]"
  "find_path open_board (1, 3) (3, 3) = [(1, 3), (2, 3), (3, 3)]"
  "find_path open_board (8, 3) (6, 4) = [(8, 3), (8, 4), (7, 4), (6, 4)]"
  "find_path open_board (4, 0) (3, 3) = [(4, 0), (4, 1), (4, 2), (4, 3), (3, 3)]"
  by code_simp+

definition crew1 :: "nat \<Rightarrow> Firefighter" where
  "crew1 = crew0(0 := (new_Firefighter 2 3)\<lparr>action_points := 3, role := ''fire_fighter''\<rparr>)"

definition crew2 :: "nat \<Rightarrow> Firefighter" where
  "crew2 = crew1(1 := (new_Firefighter 1 5)\<lparr>action_points := 3, role := ''rescuer''\<rparr>)"

definition crew3 :: "nat \<Rightarrow> Firefighter" where
  "crew3 = crew2(2 := (new_Firefighter 8 4)\<lparr>action_points := 3, role := ''fire_fighter''\<rparr>)"

definition crew4 :: "nat \<Rightarrow> Firefighter" where
  "crew4 = crew3(3 := (new_Firefighter 8 5)\<lparr>action_points := 3, role := ''rescuer''\<rparr>)"

definition crew5 :: "nat \<Rightarrow> Firefighter" where
  "crew5 = crew4(4 := (new_Firefighter 4 1)\<lparr>action_points := 3, role := ''fire_fighter''\<rparr>)"

lemmas crews = crew0_def crew1_def crew2_def crew3_def crew4_def crew5_def lone_poi_def

lemma lone_stage1: "agent_step (house [0] lone_poi crew0) 0 = house [0] lone_poi crew1"
  by (simp add: policy_defs house_simps lone_paths crews)

lemma lone_stage2: "agent_step (house [0] lone_poi crew1) 1 = house [0] lone_poi crew2"
  by (simp add: policy_defs house_simps lone_paths crews)

lemma lone_stage3: "agent_step (house [0] lone_poi crew2) 2 = house [0] lone_poi crew3"
  by (simp add: policy_defs house_simps lone_paths crews)

lemma lone_stage4: "agent_step (house [0] lone_poi crew3) 3 = house [0] lone_poi crew4"
  by (simp add: policy_defs house_simps lone_paths crews)

lemma lone_stage5: "agent_step (house [0] lone_poi crew4) 4 = house [0] lone_poi crew5"
  by (simp add: policy_defs house_simps lone_paths crews)

lemma lone_schedule_step:
  "schedule_step (house [0] lone_poi crew0) [0, 1, 2, 3, 4] = house [0] lone_poi crew5"
  unfolding schedule_step_def house_fields
  by (simp only: fold_simps lone_stage1 lone_stage2 lone_stage3 lone_stage4 lone_stage5)

definition count_role :: "Model \<Rightarrow> string \<Rightarrow> nat" where
  "count_role m r = length (filter (\<lambda>f. role (ff_obj m f) = r) (agents m))"

text \<open>
  C5, as the claim states it, fails. The simulation is the one the constructor builds
  for a 10 by 8 board, five firefighters, wall health 0 and one POI sampled at
  \<open>(5, 5)\<close>. In its first step, with the firefighters activated in the order of their
  creation, firefighter 0 ranks fourth and moves towards the fire; that brings it ahead
  of firefighter 2, which then finds itself fourth as well. After the step two
  firefighters are rescuers and three are extinguishers, with the POI still active.
\<close>

theorem three_rescuers_counterexample:
  "init_model 10 8 5 1 0 lone_sample half_draws = Inr (house [0] lone_poi crew0) \<and>
   length (agents (house [0] lone_poi crew0)) = 5 \<and>
   active_pois (house [0] lone_poi crew0) \<noteq> [] \<and>
   active_pois (fst (model_step (house [0] lone_poi crew0) [0, 1, 2, 3, 4] half_draws 0)) \<noteq> [] \<and>
   count_role (fst (model_step (house [0] lone_poi crew0) [0, 1, 2, 3, 4] half_draws 0))
     ''rescuer'' = 2 \<and>
   count_role (fst (model_step (house [0] lone_poi crew0) [0, 1, 2, 3, 4] half_draws 0))
     ''fire_fighter'' = 3"
proof -
  let ?m = "fst (model_step (house [0] lone_poi crew0) [0, 1, 2, 3, 4] half_draws 0)"
  from same_actors_model_step [of "house [0] lone_poi crew0" "[0, 1, 2, 3, 4]" half_draws 0]
  have "same_actors (house [0] lone_poi crew5) ?m" by (simp only: lone_schedule_step)
  then have eq: "agents ?m = [0, 1, 2, 3, 4]" "pois ?m = [0]"
    "poi_obj ?m = lone_poi" "ff_obj ?m = crew5"
    by (simp_all add: same_actors_def house_fields)
  have "count_role ?m ''rescuer'' = 2" "count_role ?m ''fire_fighter'' = 3"
    unfolding count_role_def eq by (simp_all add: crews new_Firefighter_def)
  moreover have "active_pois ?m \<noteq> []" "active_pois (house [0] lone_poi crew0) \<noteq> []"
    unfolding active_pois_def eq by (simp_all add: house_fields lone_poi_def new_POI_def)
  ultimately show ?thesis by (simp add: lone_constructed house_fields)
qed

subsection \<open>Roles computed against one state\<close>

lemma role_assign_role:
  "role (ff_obj (assign_role m f) f) =
   (if active_pois m \<noteq> [] \<and> f \<in> set (take 3 (ranking m)) then ''rescuer'' else ''fire_fighter'')"
  by (simp add: assign_role_ranking role_set_role)

lemma top_3_card:
  assumes "distinct (agents m)" "3 \<le> length (agents m)"
  shows "card (set (take 3 (ranking m))) = 3"
proof -
  have "distinct (take 3 (ranking m))"
    using assms(1) by (simp add: ranking_def)
  then have "card (set (take 3 (ranking m))) = length (take 3 (ranking m))"
    by (rule distinct_card)
  with assms(2) show ?thesis by (simp add: ranking_def)
qed

lemma top_3_count:
  assumes "distinct (agents m)" "3 \<le> length (agents m)"
  shows "length (filter (\<lambda>f. f \<in> set (take 3 (ranking m))) (agents m)) = 3"
proof -
  have "set (take 3 (ranking m)) \<subseteq> set (agents m)"
    using set_take_subset [of 3 "ranking m"] by (simp add: ranking_def)
  then have "{f. f \<in> set (take 3 (ranking m))} \<inter> set (agents m) = set (take 3 (ranking m))"
    by auto
  with distinct_length_filter [OF assms(1), of "\<lambda>f. f \<in> set (take 3 (ranking m))"]
    top_3_card [OF assms] show ?thesis by simp
qed

lemma snapshot_counts:
  assumes "distinct (agents m)" "length (agents m) = 5" "active_pois m \<noteq> []"
  shows "length (filter (\<lambda>f. role (ff_obj (assign_role m f) f) = ''rescuer'') (agents m)) = 3"
    and "length (filter (\<lambda>f. role (ff_obj (assign_role m f) f) = ''fire_fighter'') (agents m)) = 2"
proof -
  let ?T = "\<lambda>f. f \<in> set (take 3 (ranking m))"
  have r: "(\<lambda>f. role (ff_obj (assign_role m f) f) = ''rescuer'') = ?T"
    using assms(3) by (auto simp: role_assign_role fun_eq_iff)
  have e: "(\<lambda>f. role (ff_obj (assign_role m f) f) = ''fire_fighter'') = (\<lambda>f. \<not> ?T f)"
    using assms(3) by (auto simp: role_assign_role fun_eq_iff)
  from assms have 3: "length (filter ?T (agents m)) = 3"
    by (intro top_3_count) simp_all
  then show "length (filter (\<lambda>f. role (ff_obj (assign_role m f) f) = ''rescuer'') (agents m)) = 3"
    by (simp only: r)
  from sum_length_filter_compl [of ?T "agents m"] 3 assms(2)
  have "length (filter (\<lambda>f. \<not> ?T f) (agents m)) = 2" by (simp add: comp_def)
  then show "length (filter (\<lambda>f. role (ff_obj (assign_role m f) f) = ''fire_fighter'') (agents m)) = 2"
    by (simp only: e)
qed

subsection \<open>A step without active POIs\<close>

definition roles_kept :: "Model \<Rightarrow> Model \<Rightarrow> bool" where
  "roles_kept m m' \<longleftrightarrow>
     pois m' = pois m \<and> poi_obj m' = poi_obj m \<and> agents m' = agents m \<and>
     (\<forall>f. role (ff_obj m' f) = role (ff_obj m f))"

lemma roles_kept_refl: "roles_kept m m"
  by (simp add: roles_kept_def)

lemma roles_kept_move_to: "roles_kept m (snd (move_to m self x y))"
  by (simp add: roles_kept_def move_to_def Let_def)

lemma roles_kept_step_towards: "roles_kept m (snd (step_towards m self x y))"
  by (simp add: step_towards_def Let_def roles_kept_move_to roles_kept_refl)

lemma roles_kept_extinguish_fire: "roles_kept m (snd (extinguish_fire m self))"
  by (simp add: roles_kept_def extinguish_fire_def Let_def spend_action_point_def
      set_fire_state_def)

lemma roles_kept_firefighting: "roles_kept m (firefighting_behavior m self)"
  unfolding firefighting_behavior_def Let_def
  by (simp add: roles_kept_refl roles_kept_step_towards roles_kept_extinguish_fire
      split: list.splits)

lemma agent_step_no_active:
  assumes "active_pois m = []"
  shows "active_pois (agent_step m self) = [] \<and> agents (agent_step m self) = agents m \<and>
         (\<forall>f. role (ff_obj (agent_step m self) f) =
               (if f = self then ''fire_fighter'' else role (ff_obj m f)))"
proof -
  let ?m1 = "reset_action_points m self"
  let ?m2 = "set_role ?m1 self ''fire_fighter''"
  have a1: "active_pois ?m1 = []"
    using assms by (simp add: active_pois_def reset_action_points_def)
  then have 2: "assign_role ?m1 self = ?m2"
    by (simp add: assign_role_ranking)
  have r2: "role (ff_obj ?m2 f) = (if f = self then ''fire_fighter'' else role (ff_obj m f))" for f
    by (simp add: set_role_def reset_action_points_def)
  have a2: "active_pois ?m2 = []" "agents ?m2 = agents m"
    using assms by (simp_all add: active_pois_def set_role_def reset_action_points_def)
  have 3: "agent_step m self = firefighting_behavior ?m2 self"
    by (simp add: agent_step_def Let_def 2 r2)
  from roles_kept_firefighting [of ?m2 self] a2 r2 show ?thesis
    unfolding 3 by (simp add: roles_kept_def active_pois_def)
qed

lemma agent_steps_no_active:
  "active_pois m = [] \<Longrightarrow>
   active_pois (fold (\<lambda>self m. agent_step m self) order m) = [] \<and>
   agents (fold (\<lambda>self m. agent_step m self) order m) = agents m \<and>
   (\<forall>f. role (ff_obj (fold (\<lambda>self m. agent_step m self) order m) f) =
         (if f \<in> set order then ''fire_fighter'' else role (ff_obj m f)))"
proof (induction order arbitrary: m)
  case Nil
  then show ?case by simp
next
  case (Cons self order)
  note s = agent_step_no_active [OF Cons.prems, of self]
  from s have "active_pois (agent_step m self) = []" by simp
  from Cons.IH [OF this] s show ?case by simp
qed

lemma model_step_no_active:
  assumes "active_pois m = []" "set order = set (agents m)" "f \<in> set (agents m)"
  shows "role (ff_obj (fst (model_step m order rnd k)) f) = ''fire_fighter''"
proof -
  have "active_pois (m\<lparr>agents := order\<rparr>) = []"
    using assms(1) by (simp add: active_pois_def)
  from agent_steps_no_active [OF this, of order] assms(2,3)
  have "role (ff_obj (schedule_step m order) f) = ''fire_fighter''"
    by (simp add: schedule_step_def)
  with same_actors_model_step [of m order rnd k] show ?thesis
    by (simp add: same_actors_def)
qed

text \<open>
  C5, amended. With exactly five firefighters and at least one POI that is not rescued,
  the role rule evaluated for each of the five against one and the same state gives
  exactly three rescuers and two extinguishers. After a step that starts with no such
  POI, every firefighter is an extinguisher. (Each firefighter recomputes only its own
  role, at its own activation and against the state the earlier ones left, so after a
  step with an active POI the roles need not be three and two.)
\<close>

theorem role_counts:
  assumes "distinct (agents m)" "length (agents m) = 5"
  shows "(active_pois m \<noteq> [] \<longrightarrow>
            length (filter (\<lambda>f. role (ff_obj (assign_role m f) f) = ''rescuer'') (agents m)) = 3 \<and>
            length (filter (\<lambda>f. role (ff_obj (assign_role m f) f) = ''fire_fighter'') (agents m))
              = 2) \<and>
         (active_pois m = [] \<longrightarrow>
            (\<forall>order rnd k. set order = set (agents m) \<longrightarrow>
               (\<forall>f\<in>set (agents m).
                  role (ff_obj (fst (model_step m order rnd k)) f) = ''fire_fighter'')))"
  using snapshot_counts [OF assms] model_step_no_active [of m] by blast

theorem role_counts_witness:
  "distinct (agents (house [0] lone_poi crew0)) \<and> length (agents (house [0] lone_poi crew0)) = 5 \<and>
   active_pois (house [0] lone_poi crew0) \<noteq> [] \<and>
   length (filter (\<lambda>f. role (ff_obj (assign_role (house [0] lone_poi crew0) f) f) = ''rescuer'')
     (agents (house [0] lone_poi crew0))) = 3 \<and>
   active_pois (house [] lone_poi crew0) = [] \<and>
   set [4, 3, 2, 1, 0] = set (agents (house [] lone_poi crew0)) \<and>
   role (ff_obj (fst (model_step (house [] lone_poi crew0) [4, 3, 2, 1, 0] half_draws 0)) 2)
     = ''fire_fighter''"
proof -
  have a: "distinct (agents (house ps lone_poi crew0))" "length (agents (house ps lone_poi crew0)) = 5"
    for ps
    by (simp_all add: house_fields)
  have b: "active_pois (house [0] lone_poi crew0) \<noteq> []" "active_pois (house [] lone_poi crew0) = []"
    by (simp_all add: active_pois_def house_fields lone_poi_def new_POI_def)
  have c: "set [4, 3, 2, 1, 0] = set (agents (house [] lone_poi crew0))"
    "(2::nat) \<in> set (agents (house [] lone_poi crew0))"
    by (auto simp: house_fields)
  from role_counts [OF a, of "[0]"] role_counts [OF a, of "[]"] a b c show ?thesis
    by blast
qed

subsection \<open>A reachable state with a carried POI\<close>

definition pair_sample :: "pos list \<Rightarrow> nat \<Rightarrow> pos list" where
  "pair_sample xs n = [(1, 2), (8, 6)]"

definition pair_pois :: "nat \<Rightarrow> POI" where
  "pair_pois = (\<lambda>a. blank_POI)(0 := new_POI 0 1 2 False, 1 := new_POI 1 8 6 False)"

definition carried_pois :: "nat \<Rightarrow> POI" where
  "carried_pois = pair_pois(0 := (new_POI 0 1 2 False)\<lparr>is_revealed := True, carried_by := Some 0\<rparr>)"

definition carrier_crew :: "nat \<Rightarrow> Firefighter" where
  "carrier_crew = crew0(0 := (new_Firefighter 1 3)\<lparr>action_points := 1, carrying_poi := Some 0\<rparr>)"

definition carrier_house :: Model where
  "carrier_house = house [0, 1] carried_pois carrier_crew"

lemma pair_constructed:
  "init_model 10 8 5 2 0 pair_sample half_draws = Inr (house [0, 1] pair_pois crew0)"
proof -
  from house_constructed [of 2 pair_sample half_draws] obtain n where
    "init_model 10 8 5 2 0 pair_sample half_draws =
       Inr (add_pois (house [] (\<lambda>a. blank_POI) crew0)
              (pair_sample (available_positions (house [] (\<lambda>a. blank_POI) crew0)) n) half_draws)"
    by auto
  then show ?thesis
    by (simp add: pair_sample_def add_pois_def house_fields half_draws_def pair_pois_def)
qed

lemma carrier_house_steps:
  "snd (move_to (snd (pickup_poi (snd (move_to (house [0, 1] pair_pois crew0) 0 1 2)) 0)) 0 1 3)
   = carrier_house"
proof -
  let ?c1 = "crew0(0 := (new_Firefighter 1 2)\<lparr>action_points := 3\<rparr>)"
  let ?c2 = "crew0(0 := (new_Firefighter 1 2)\<lparr>action_points := 2, carrying_poi := Some 0\<rparr>)"
  have 1: "snd (move_to (house [0, 1] pair_pois crew0) 0 1 2) = house [0, 1] pair_pois ?c1"
    by (simp add: move_to_def house_simps crew0_def new_Firefighter_def)
  have 2: "snd (pickup_poi (house [0, 1] pair_pois ?c1) 0) = house [0, 1] carried_pois ?c2"
    by (simp add: pickup_poi_def get_poi_at_def reveal_def carry_def spend_action_point_def
        house_fields pair_pois_def carried_pois_def crew0_def new_Firefighter_def new_POI_def)
  have 3: "snd (move_to (house [0, 1] carried_pois ?c2) 0 1 3) = carrier_house"
    by (simp add: move_to_def house_simps crew0_def new_Firefighter_def carrier_house_def
        carrier_crew_def)
  show ?thesis by (simp only: 1 2 3)
qed

lemma carrier_house_reachable: "reachable_state carrier_house"
proof -
  let ?h = "house [0, 1] pair_pois crew0"
  have 0: "reachable_state ?h"
    by (rule reachable_state.constructed [OF pair_constructed])
  have a: "0 \<in> set (agents m)" if "agents m = [0, 1, 2, 3, 4]" for m
    using that by simp
  have 1: "reachable_state (snd (move_to ?h 0 1 2))"
    by (rule reachable_state.moved [OF 0]) (simp add: house_fields)
  have 2: "reachable_state (snd (pickup_poi (snd (move_to ?h 0 1 2)) 0))"
    by (rule reachable_state.picked_up [OF 1]) (simp add: agents_primitives house_fields)
  have "reachable_state (snd (move_to (snd (pickup_poi (snd (move_to ?h 0 1 2)) 0)) 0 1 3))"
    by (rule reachable_state.moved [OF 2]) (simp add: agents_primitives house_fields)
  then show ?thesis by (simp only: carrier_house_steps)
qed

lemma pair_paths:
  "find_path open_board (1, 3) (1, 2) = [(1, 3), (1, 2)]"
  "find_path open_board (1, 4) (1, 2) = [(1, 4), (1, 3), (1, 2)]"
  "find_path open_board (8, 3) (1, 2) =
     [(8, 3), (8, 2), (7, 2), (6, 2), (5, 2), (4, 2), (3, 2), (2, 2), (1, 2)]"
  "find_path open_board (8, 4) (1, 2) =
     [(8, 4), (8, 3), (8, 2), (7, 2), (6, 2), (5, 2), (4, 2), (3, 2), (2, 2), (1, 2)]"
  "find_path open_board (4, 0) (1, 2) = [(4, 0), (4, 1), (4, 2), (3, 2), (2, 2), (1, 2)]"
  "find_path open_board (1, 3) (8, 6) =
     [(1, 3), (1, 4), (1, 5), (1, 6), (2, 6), (3, 6), (4, 6), (5, 6), (6, 6), (7, 6), (8, 6)]"
  "find_path open_board (1, 4) (8, 6) =
     [(1, 4), (1, 5), (1, 6), (2, 6), (3, 6), (4, 6), (5, 6), (6, 6), (7, 6), (8, 6)]"
  "find_path open_board (8, 3) (8, 6) = [(8, 3), (8, 4), (8, 5), (8, 6)]"
  "find_path open_board (8, 4) (8, 6) = [(8, 4), (8, 5), (8, 6)]"
  "find_path open_board (4, 0) (8, 6) =
     [(4, 0), (4, 1), (4, 2), (4, 3), (4, 4), (4, 5), (4, 6), (5, 6), (6, 6), (7, 6), (8, 6)]"
  by code_simp+

subsection \<open>The role rule\<close>

text \<open>The rule as the claim words it: scores over the POIs that are active and not carried.\<close>

definition uncarried_active_pois :: "Model \<Rightarrow> nat list" where
  "uncarried_active_pois m =
     filter (\<lambda>poi. \<not> is_rescued (poi_obj m poi) \<and> carried_by (poi_obj m poi) = None) (pois m)"

definition claimed_score :: "Model \<Rightarrow> nat \<Rightarrow> enat" where
  "claimed_score m f = least_length (path_lengths m (uncarried_active_pois m) f)"

definition claimed_role :: "Model \<Rightarrow> nat \<Rightarrow> string" where
  "claimed_role m self =
     (if active_pois m \<noteq> [] \<and> self \<in> set (take 3 (sort_key (claimed_score m) (agents m)))
      then ''rescuer'' else ''fire_fighter'')"

lemmas carrier_defs = carrier_house_def carrier_crew_def carried_pois_def pair_pois_def crew0_def

text \<open>
  C4, as the claim states it, fails. In the house reached by firefighter 0 walking to
  the POI at \<open>(1, 2)\<close>, picking it up and walking back, the code scores the carried POI
  too, at the cell where it was picked up: firefighter 0 has the lowest score and
  becomes a rescuer. Scored over the uncarried POIs only, as the claim has it, it would
  rank fourth and become an extinguisher.
\<close>

theorem carried_poi_scored_counterexample:
  "reachable_state carrier_house \<and>
   carried_by (poi_obj carrier_house 0) = Some 0 \<and>
   uncarried_active_pois carrier_house = [1] \<and>
   map (score carrier_house) (agents carrier_house) = [2, 3, 4, 3, 6] \<and>
   map (claimed_score carrier_house) (agents carrier_house) = [11, 10, 4, 3, 11] \<and>
   role (ff_obj (assign_role carrier_house 0) 0) = ''rescuer'' \<and>
   claimed_role carrier_house 0 = ''fire_fighter''"
proof -
  have u: "uncarried_active_pois carrier_house = [1]"
    by (simp add: uncarried_active_pois_def carrier_defs house_fields new_POI_def)
  have a: "active_pois carrier_house = [0, 1]"
    by (simp add: active_pois_def carrier_defs house_fields new_POI_def)
  have s: "map (score carrier_house) (agents carrier_house) = [2, 3, 4, 3, 6]"
    unfolding score_def a ff_min_dist_least [symmetric]
    by (simp add: ff_min_dist_def get_path_to_def Let_def carrier_defs house_simps pair_paths
        new_POI_def new_Firefighter_def numeral_eq_enat)
  have c: "map (claimed_score carrier_house) (agents carrier_house) = [11, 10, 4, 3, 11]"
    unfolding claimed_score_def u ff_min_dist_least [symmetric]
    by (simp add: ff_min_dist_def get_path_to_def Let_def carrier_defs house_simps pair_paths
        new_POI_def new_Firefighter_def numeral_eq_enat)
  have ag: "agents carrier_house = [0, 1, 2, 3, 4]"
    by (simp add: carrier_house_def house_fields)
  from s have s': "score carrier_house 0 = 2" "score carrier_house 1 = 3"
    "score carrier_house 2 = 4" "score carrier_house 3 = 3" "score carrier_house 4 = 6"
    by (simp_all add: ag)
  from c have c': "claimed_score carrier_house 0 = 11" "claimed_score carrier_house 1 = 10"
    "claimed_score carrier_house 2 = 4" "claimed_score carrier_house 3 = 3"
    "claimed_score carrier_house 4 = 11"
    by (simp_all add: ag)
  have r: "ranking carrier_house = [0, 1, 3, 2, 4]"
    by (simp add: ranking_def ag s' s' [unfolded One_nat_def])
  have cr: "sort_key (claimed_score carrier_house) (agents carrier_house) = [3, 2, 1, 0, 4]"
    by (simp add: ag c' c' [unfolded One_nat_def])
  have 1: "role (ff_obj (assign_role carrier_house 0) 0) = ''rescuer''"
    by (simp add: role_assign_role a r)
  have 2: "claimed_role carrier_house 0 = ''fire_fighter''"
    by (simp add: claimed_role_def a cr)
  have 3: "carried_by (poi_obj carrier_house 0) = Some 0"
    by (simp add: carrier_defs house_fields)
  from carrier_house_reachable u s c 1 2 3 show ?thesis by simp
qed

lemma ranking_properties:
  "length (ranking m) = length (agents m) \<and> set (ranking m) = set (agents m) \<and>
   sorted (map (score m) (ranking m)) \<and>
   (\<forall>k. filter (\<lambda>g. score m g = k) (ranking m) = filter (\<lambda>g. score m g = k) (agents m))"
  by (simp add: ranking_def sort_key_stable)

text \<open>
  C4, amended. The score of a firefighter is the least length of a non-empty path from
  its cell to the recorded cell of a POI that is not rescued, carried or not, and \<open>\<infinity>\<close>
  when there is no such path. The firefighters are ranked by ascending score, equal
  scores in the order of the scheduler's agent sequence (the ranking is a rearrangement
  of that sequence, sorted by score, that keeps the order within every score). The
  acting firefighter becomes a rescuer when some POI is not rescued and it is among the
  first three of the ranking, an extinguisher otherwise; nothing but its role changes.
\<close>

theorem role_assignment_rule:
  "ff_min_dist m (active_pois m) f =
     (if path_lengths m (active_pois m) f = {} then \<infinity>
      else enat (Min (path_lengths m (active_pois m) f))) \<and>
   score m f = ff_min_dist m (active_pois m) f \<and>
   (\<exists>ranked. length ranked = length (agents m) \<and> set ranked = set (agents m) \<and>
      sorted (map (score m) ranked) \<and>
      (\<forall>k. filter (\<lambda>g. score m g = k) ranked = filter (\<lambda>g. score m g = k) (agents m)) \<and>
      assign_role m self =
        set_role m self (if active_pois m \<noteq> [] \<and> self \<in> set (take 3 ranked)
                         then ''rescuer'' else ''fire_fighter'')) \<and>
   (active_pois m = [] \<longrightarrow> role (ff_obj (assign_role m self) self) = ''fire_fighter'')"
proof -
  have 1: "ff_min_dist m (active_pois m) f =
     (if path_lengths m (active_pois m) f = {} then \<infinity>
      else enat (Min (path_lengths m (active_pois m) f)))"
    by (simp add: ff_min_dist_least least_length_def)
  have 2: "score m f = ff_min_dist m (active_pois m) f"
    by (simp add: score_def ff_min_dist_least)
  from ranking_properties [of m] assign_role_ranking [of m self]
  have 3: "\<exists>ranked. length ranked = length (agents m) \<and> set ranked = set (agents m) \<and>
      sorted (map (score m) ranked) \<and>
      (\<forall>k. filter (\<lambda>g. score m g = k) ranked = filter (\<lambda>g. score m g = k) (agents m)) \<and>
      assign_role m self =
        set_role m self (if active_pois m \<noteq> [] \<and> self \<in> set (take 3 ranked)
                         then ''rescuer'' else ''fire_fighter'')"
    by blast
  have 4: "active_pois m = [] \<longrightarrow> role (ff_obj (assign_role m self) self) = ''fire_fighter''"
    by (simp add: role_assign_role)
  from 1 2 3 4 show ?thesis by blast
qed

theorem role_assignment_rule_witness:
  "active_pois (house [] lone_poi crew0) = [] \<and>
   role (ff_obj (assign_role (house [] lone_poi crew0) 3) 3) = ''fire_fighter'' \<and>
   active_pois carrier_house = [0, 1] \<and>
   path_lengths carrier_house (active_pois carrier_house) 0 \<noteq> {} \<and>
   Min (path_lengths carrier_house (active_pois carrier_house) 0) = 2 \<and>
   score carrier_house 0 = 2"
proof -
  have a: "active_pois (house [] lone_poi crew0) = []"
    by (simp add: active_pois_def house_fields)
  have b: "active_pois carrier_house = [0, 1]"
    by (simp add: active_pois_def carrier_defs house_fields new_POI_def)
  have c: "ff_min_dist carrier_house (active_pois carrier_house) 0 = 2"
    unfolding b
    by (simp add: ff_min_dist_def get_path_to_def Let_def carrier_defs house_simps pair_paths
        new_POI_def new_Firefighter_def numeral_eq_enat)
  from role_assignment_rule [of carrier_house 0 0] c
  have d: "path_lengths carrier_house (active_pois carrier_house) 0 \<noteq> {}"
    "Min (path_lengths carrier_house (active_pois carrier_house) 0) = 2"
    "score carrier_house 0 = 2"
    by (auto simp: numeral_eq_enat split: if_splits)
  from role_assignment_rule [of "house [] lone_poi crew0" 3 3] a b d show ?thesis
    by simp
qed

theorem carrying_links_invariant_witness:
  "reachable_state carrier_house \<and> 0 \<in> set (agents carrier_house) \<and>
   carrying_poi (ff_obj carrier_house 0) = Some 0 \<and> 0 \<in> set (pois carrier_house) \<and>
   carried_by (poi_obj carrier_house 0) = Some 0 \<and> carried_by_one carrier_house 0 \<and>
   1 \<in> set (pois carrier_house) \<and> not_picked_up carrier_house 1 \<and>
   carry_inv (snd (drop_poi_at_exit carrier_house 0)) \<and>
   reachable_state (snd (pickup_poi carrier_house 1))"
proof -
  have a: "0 \<in> set (agents carrier_house)" "1 \<in> set (agents carrier_house)"
    "carrying_poi (ff_obj carrier_house 0) = Some 0"
    "0 \<in> set (pois carrier_house)" "1 \<in> set (pois carrier_house)"
    "\<not> is_rescued (poi_obj carrier_house 0)" "\<not> is_rescued (poi_obj carrier_house 1)"
    "carried_by (poi_obj carrier_house 1) = None"
    by (simp_all add: carrier_defs house_fields new_POI_def)
  note t = carrying_links_invariant [OF carrier_house_reachable]
  from t a have b: "carried_by (poi_obj carrier_house 0) = Some 0" by blast
  from t a(4) have "exactly_one (not_picked_up carrier_house 0) (carried_by_one carrier_house 0)
      (rescued carrier_house 0)" by blast
  with a(6) b have c: "carried_by_one carrier_house 0"
    by (auto simp: exactly_one_def not_picked_up_def rescued_def)
  from t a(5) have "exactly_one (not_picked_up carrier_house 1) (carried_by_one carrier_house 1)
      (rescued carrier_house 1)" by blast
  with a(7,8) have d: "not_picked_up carrier_house 1"
    by (auto simp: exactly_one_def carried_by_one_def rescued_def)
  from t a(1,2) have e: "carry_inv (snd (drop_poi_at_exit carrier_house 0))"
    "reachable_state (snd (pickup_poi carrier_house 1))" by blast+
  from carrier_house_reachable a b c d e show ?thesis by simp
qed

section \<open>The fire-spread pass\<close>

subsection \<open>The draws of a pass, decided by the grid before it\<close>













































section \<open>Construction with invalid arguments\<close>





















end
